theory Spec2Isabelle
  imports Complex_Main "HOL-Library.Multiset"
begin

section \<open>The unsupervised data source of the response-evaluation task\<close>

text \<open>
  This theory embeds \<^verbatim>\<open>src/tasks/response_eval/data_source_unsupervised.py\<close>:
  the class \<^verbatim>\<open>DataSourceUnsupervised\<close> with its constructor, the dissimilarity
  test \<^verbatim>\<open>_are_different_uttrs\<close>, \<^verbatim>\<open>epoch_init\<close>, \<^verbatim>\<open>__len__\<close> and
  \<^verbatim>\<open>next\<close>.

  Conventions of the embedding.
  \<^item> Python dictionaries that the code mutates and shares are objects in an explicit
    store. An utterance dictionary and its \<^verbatim>\<open>utterance_meta\<close> dictionary are two
    objects, each with its own address, because \<^verbatim>\<open>copy.deepcopy\<close> and the
    assignments to \<^verbatim>\<open>["utterance_meta"]["reference_uttr"]\<close> act on both levels.
    A segment dictionary is never mutated after it is built and is a plain value: the
    list of the addresses of its utterances.
  \<^item> An exception is a value \<open>Inl e\<close> of a sum type.
  \<^item> The process-wide random source is an explicit argument. The constructor's
    \<^verbatim>\<open>while True\<close> loop has no bound, so it reads its draws from a finite tape and
    yields \<open>None\<close> when the tape ends while it is still looking for a negative.
    \<^verbatim>\<open>random.shuffle\<close> always terminates and reads its draws from a function.
  \<^item> \<^verbatim>\<open>coverage_score\<close> is a Python float; the embedding computes it in exact
    rational arithmetic.
  \<^item> The tokenizer is not part of the sources. Its two conversion functions and its
    pad id are parameters (total functions); its batch conversion is modelled from
    the specification.
\<close>

subsection \<open>Errors, objects and the store\<close>

datatype py_error =
  ValueError | ZeroDivisionError | IndexError | KeyError | AttributeError | RuntimeError

type_synonym addr = nat
type_synonym maddr = nat

text \<open>An utterance dictionary after the tokenization pass of the constructor.\<close>

record uttr =
  uttr_text :: string
  uttr_floor :: string
  tokens :: "string list"
  token_ids :: "int list"
  floor_id :: nat
  is_next :: bool
  utterance_meta :: maddr

text \<open>
  An \<^verbatim>\<open>utterance_meta\<close> dictionary. Only its key \<^verbatim>\<open>reference_uttr\<close> is ever read or
  written by the code; \<open>None\<close> stands for the key being absent.
\<close>

record meta =
  reference_uttr :: "addr option"

record store =
  uttrs :: "uttr list"
  metas :: "meta list"

record tokenizer =
  convert_string_to_tokens :: "string \<Rightarrow> string list"
  convert_tokens_to_ids :: "string list \<Rightarrow> bool \<Rightarrow> int list"
  pad_token_id :: int

record config =
  dataset_path :: string
  max_uttr_len :: int
  history_len :: int

record statistics =
  n_sessions :: nat
  n_uttrs :: nat
  n_tokens :: nat
  n_segments :: nat

text \<open>
  The attributes of a \<^verbatim>\<open>DataSourceUnsupervised\<close> object, together with the store
  its utterances live in. \<open>priv_segments\<close> is the attribute \<^verbatim>\<open>_segments\<close>;
  \<open>segments\<close> and \<open>cur_segment_idx\<close> do not exist before \<^verbatim>\<open>epoch_init\<close>.
\<close>

record data_source = config +
  tokenizer :: tokenizer
  statistics :: statistics
  heap :: store
  utterance_pool :: "addr list"
  priv_segments :: "addr list list"
  segments :: "addr list list option"
  cur_segment_idx :: "nat option"

text \<open>The lists \<^verbatim>\<open>next\<close> fills before it turns them into tensors.\<close>

record locals =
  lX :: "int list list"
  lY :: "int list list"
  lY_ref :: "int list list"
  lX_floor :: "nat list"
  lY_floor :: "nat list"
  lY_is_next :: "bool list"

text \<open>The dictionary \<^verbatim>\<open>batch_data_dict\<close>; a tensor is the nested list of its entries.\<close>

record batch =
  X :: "int list list list"
  X_floor :: "nat list list"
  Y :: "int list list"
  Y_ref :: "int list list"
  Y_floor :: "nat list"
  Y_is_next :: "bool list"

subsection \<open>Python built-ins\<close>

text \<open>\<^verbatim>\<open>xs[i:j]\<close> for \<open>0 \<le> i\<close> and \<open>0 \<le> j\<close>.\<close>

definition py_slice :: "'a list \<Rightarrow> nat \<Rightarrow> nat \<Rightarrow> 'a list" where
  "py_slice xs i j = drop i (take j xs)"

text \<open>\<^verbatim>\<open>xs[:m]\<close> for any integer \<open>m\<close>; a negative \<open>m\<close> counts from the end.\<close>

definition py_slice_to :: "'a list \<Rightarrow> int \<Rightarrow> 'a list" where
  "py_slice_to xs m = (if 0 \<le> m then take (nat m) xs else take (nat (int (length xs) + m)) xs)"

text \<open>\<^verbatim>\<open>xs.index(x)\<close>, which raises \<^verbatim>\<open>ValueError\<close> when \<open>x\<close> is absent.\<close>

fun py_index :: "'a list \<Rightarrow> 'a \<Rightarrow> py_error + nat" where
  "py_index [] x = Inl ValueError"
| "py_index (y # ys) x =
     (if y = x then Inr 0
      else (case py_index ys x of Inl e \<Rightarrow> Inl e | Inr i \<Rightarrow> Inr (Suc i)))"

text \<open>\<^verbatim>\<open>s.split(c)\<close> for a one-character separator.\<close>

fun py_split :: "char \<Rightarrow> string \<Rightarrow> string list" where
  "py_split c [] = [[]]"
| "py_split c (x # xs) =
     (if x = c then [] # py_split c xs
      else (case py_split c xs of [] \<Rightarrow> [[x]] | w # ws \<Rightarrow> (x # w) # ws))"

text \<open>
  A \<^verbatim>\<open>for\<close> loop over a list whose body may raise or may fail to return: the first
  body that does not return normally ends the loop.
\<close>

fun for_each :: "('a \<Rightarrow> 's \<Rightarrow> (py_error + 's) option) \<Rightarrow> 'a list \<Rightarrow> 's \<Rightarrow> (py_error + 's) option" where
  "for_each body [] s = Some (Inr s)"
| "for_each body (x # xs) s =
     (case body x s of
        None \<Rightarrow> None
      | Some (Inl e) \<Rightarrow> Some (Inl e)
      | Some (Inr s') \<Rightarrow> for_each body xs s')"

subsection \<open>\<^verbatim>\<open>copy.deepcopy\<close>\<close>

text \<open>
  \<^verbatim>\<open>copy.deepcopy\<close> copies every object it reaches once (its memo), and the copies
  point to each other as the originals do. From an utterance the only pointers are to
  its \<^verbatim>\<open>utterance_meta\<close> and from there to \<^verbatim>\<open>reference_uttr\<close>, so the objects
  reached from one utterance form a chain. \<open>visit\<close> follows the chain and extends the
  memo: the utterances and the metas met so far, in the order they are met.
\<close>

function visit :: "store \<Rightarrow> addr list \<times> maddr list \<Rightarrow> addr \<Rightarrow> addr list \<times> maddr list" where
  "visit st (us, ms) a =
     (if a \<in> set us \<or> length (uttrs st) \<le> a then (us, ms)
      else let m = utterance_meta (uttrs st ! a) in
        if m \<in> set ms \<or> length (metas st) \<le> m then (us @ [a], ms)
        else (case reference_uttr (metas st ! m) of
                None \<Rightarrow> (us @ [a], ms @ [m])
              | Some r \<Rightarrow> visit st (us @ [a], ms @ [m]) r))"
  by pat_completeness auto
termination
proof (relation "measure (\<lambda>(st, (us, ms), a). card ({..<length (uttrs st)} - set us))")
  show "wf (measure (\<lambda>(st, (us, ms), a). card ({..<length (uttrs st)} - set us)))"
    by simp
next
  fix st :: store and us :: "addr list" and ms :: "maddr list" and a m r
  assume a: "\<not> (a \<in> set us \<or> length (uttrs st) \<le> a)"
  have "{..<length (uttrs st)} - set (us @ [a]) = ({..<length (uttrs st)} - set us) - {a}"
    by auto
  moreover have "a \<in> {..<length (uttrs st)} - set us"
    using a by auto
  ultimately have "card ({..<length (uttrs st)} - set (us @ [a])) < card ({..<length (uttrs st)} - set us)"
    using card_Diff1_less [of "{..<length (uttrs st)} - set us" a] by simp
  then show "((st, (us @ [a], ms @ [m]), r), (st, (us, ms), a))
      \<in> measure (\<lambda>(st, (us, ms), a). card ({..<length (uttrs st)} - set us))"
    by simp
qed

declare visit.simps [simp del]

text \<open>The position of the first occurrence of \<open>x\<close> in \<open>xs\<close>.\<close>

fun index_of :: "'a list \<Rightarrow> 'a \<Rightarrow> nat" where
  "index_of [] x = 0"
| "index_of (y # ys) x = (if y = x then 0 else Suc (index_of ys x))"

text \<open>
  The copies are allocated behind the existing objects, in memo order; a pointer of a
  copy goes to the copy of its target.
\<close>

definition copy_objects :: "store \<Rightarrow> addr list \<times> maddr list \<Rightarrow> store" where
  "copy_objects st memo =
     (let us = fst memo; ms = snd memo;
          ub = length (uttrs st); mb = length (metas st)
      in \<lparr>uttrs = uttrs st @
             map (\<lambda>a. (uttrs st ! a)\<lparr>utterance_meta :=
                    mb + index_of ms (utterance_meta (uttrs st ! a))\<rparr>) us,
          metas = metas st @
             map (\<lambda>m. (metas st ! m)\<lparr>reference_uttr :=
                    map_option (\<lambda>r. ub + index_of us r) (reference_uttr (metas st ! m))\<rparr>) ms\<rparr>)"

text \<open>\<^verbatim>\<open>copy.deepcopy(negative_uttr)\<close>: the new store and the address of the copy.\<close>

definition deepcopy_uttr :: "store \<Rightarrow> addr \<Rightarrow> store \<times> addr" where
  "deepcopy_uttr st a =
     (let memo = visit st ([], []) a
      in (copy_objects st memo, length (uttrs st) + index_of (fst memo) a))"

text \<open>\<^verbatim>\<open>copy.deepcopy(self._segments)\<close>: one memo for the whole list of segments.\<close>

definition deepcopy_segments :: "store \<Rightarrow> addr list list \<Rightarrow> store \<times> addr list list" where
  "deepcopy_segments st segs =
     (let memo = fold (\<lambda>a memo. visit st memo a) (concat segs) ([], [])
      in (copy_objects st memo,
          map (map (\<lambda>a. length (uttrs st) + index_of (fst memo) a)) segs))"

subsection \<open>\<^verbatim>\<open>random.shuffle\<close>\<close>

text \<open>
  \<^verbatim>\<open>for i in reversed(range(1, len(x))): j = randbelow(i + 1); x[i], x[j] = x[j], x[i]\<close>,
  the \<open>k\<close>-th draw being \<open>rng k\<close> reduced below \<open>i + 1\<close>.
\<close>

definition swap :: "nat \<Rightarrow> nat \<Rightarrow> 'a list \<Rightarrow> 'a list" where
  "swap i j xs = xs[i := xs ! j, j := xs ! i]"

fun shuffle_loop :: "(nat \<Rightarrow> nat) \<Rightarrow> nat \<Rightarrow> nat \<Rightarrow> 'a list \<Rightarrow> 'a list" where
  "shuffle_loop rng k 0 xs = xs"
| "shuffle_loop rng k (Suc i) xs =
     shuffle_loop rng (Suc k) i (swap (Suc i) (rng k mod (Suc i + 1)) xs)"

definition random_shuffle :: "(nat \<Rightarrow> nat) \<Rightarrow> 'a list \<Rightarrow> 'a list" where
  "random_shuffle rng xs = shuffle_loop rng 0 (length xs - 1) xs"

subsection \<open>The tokenizer's batch conversion\<close>

text \<open>
  Modelled from the spec: \<^verbatim>\<open>convert_batch_ids_to_tensor\<close> belongs to the tokenizer,
  which is not among the sources. The specification says that it turns a sequence of
  id sequences into a padded 2D tensor, padding to the batch's own maximal length with
  a defined pad id. For the empty batch the model returns the empty tensor.
\<close>

definition convert_batch_ids_to_tensor :: "tokenizer \<Rightarrow> int list list \<Rightarrow> int list list" where
  "convert_batch_ids_to_tensor tok batch_ids =
     (let max_len = fold max (map length batch_ids) 0
      in map (\<lambda>ids. ids @ replicate (max_len - length ids) (pad_token_id tok)) batch_ids)"

subsection \<open>\<^verbatim>\<open>torch.Tensor.view\<close>\<close>

text \<open>
  \<^verbatim>\<open>t.view(b, h, -1)\<close> on a contiguous 2D tensor: the entries are kept in row-major
  order; the free dimension is the number of entries divided by \<open>b * h\<close>, and the call
  raises when \<open>b * h\<close> is zero or does not divide the number of entries.
\<close>

definition view3 :: "int list list \<Rightarrow> nat \<Rightarrow> nat \<Rightarrow> py_error + int list list list" where
  "view3 t b h =
     (let flat = concat t; numel = length flat
      in if b * h = 0 \<or> numel mod (b * h) \<noteq> 0 then Inl RuntimeError
         else let d = numel div (b * h)
              in Inr (map (\<lambda>i. map (\<lambda>j. take d (drop ((i * h + j) * d) flat)) [0..<h]) [0..<b]))"

text \<open>\<^verbatim>\<open>t.view(b, h)\<close> on a 1D tensor: it raises unless the tensor has \<open>b * h\<close> entries.\<close>

definition view2 :: "nat list \<Rightarrow> nat \<Rightarrow> nat \<Rightarrow> py_error + nat list list" where
  "view2 t b h =
     (if length t \<noteq> b * h then Inl RuntimeError
      else Inr (map (\<lambda>i. take h (drop (i * h) t)) [0..<b]))"

subsection \<open>\<^verbatim>\<open>_are_different_uttrs\<close>\<close>

definition coverage_score :: "int list \<Rightarrow> int list \<Rightarrow> rat" where
  "coverage_score ids1 ids2 =
     (let id_set1 = set ids1; id_set2 = set ids2;
          intersection = id_set1 \<inter> id_set2
      in (of_nat (card intersection) / of_nat (card id_set1)
          + of_nat (card intersection) / of_nat (card id_set2)) / 2)"

text \<open>Each of the two divisions raises \<^verbatim>\<open>ZeroDivisionError\<close> on an empty id set.\<close>

definition are_different_uttrs :: "int list \<Rightarrow> int list \<Rightarrow> py_error + bool" where
  "are_different_uttrs ids1 ids2 =
     (if card (set ids1) = 0 \<or> card (set ids2) = 0 then Inl ZeroDivisionError
      else if coverage_score ids1 ids2 < 8 / 10 then Inr True
      else Inr False)"

subsection \<open>The constructor\<close>

text \<open>
  The tokenization pass over one utterance \<open>(text, floor)\<close> whose
  \<^verbatim>\<open>utterance_meta\<close> dictionary is at address \<open>m\<close>.
\<close>

definition process_uttr :: "'a config_scheme \<Rightarrow> tokenizer \<Rightarrow> maddr \<Rightarrow> string \<times> string \<Rightarrow> py_error + uttr" where
  "process_uttr cfg tok m raw =
     (let text = fst raw; floor = snd raw;
          toks = py_slice_to (convert_string_to_tokens tok text) (max_uttr_len cfg);
          ids = convert_tokens_to_ids tok toks True
      in case py_index [''A'', ''B''] floor of
           Inl e \<Rightarrow> Inl e
         | Inr fid \<Rightarrow>
             Inr \<lparr>uttr_text = text, uttr_floor = floor, tokens = toks,
                  token_ids = ids, floor_id = fid, is_next = True,
                  utterance_meta = m\<rparr>)"

fun process_uttrs :: "'a config_scheme \<Rightarrow> tokenizer \<Rightarrow> maddr \<Rightarrow> (string \<times> string) list \<Rightarrow> py_error + uttr list" where
  "process_uttrs cfg tok m [] = Inr []"
| "process_uttrs cfg tok m (raw # raws) =
     (case process_uttr cfg tok m raw of
        Inl e \<Rightarrow> Inl e
      | Inr u \<Rightarrow>
          (case process_uttrs cfg tok (Suc m) raws of
             Inl e \<Rightarrow> Inl e
           | Inr us \<Rightarrow> Inr (u # us)))"

text \<open>
  The input is a tree, as a JSON loader builds it: no utterance and no
  \<^verbatim>\<open>utterance_meta\<close> dictionary occurs twice. The utterances of all sessions get the
  addresses \<open>0, 1, 2, \<dots>\<close> in input order, and the \<^verbatim>\<open>utterance_meta\<close> of the utterance at
  \<open>a\<close> is the meta object at \<open>a\<close>. \<open>session_addrs\<close> is the list
  \<^verbatim>\<open>sess["utterances"]\<close> of every session, as addresses.
\<close>

fun session_addrs :: "nat \<Rightarrow> 'a list list \<Rightarrow> addr list list" where
  "session_addrs a [] = []"
| "session_addrs a (sess # sessions) =
     [a..<a + length sess] # session_addrs (a + length sess) sessions"

text \<open>
  The \<^verbatim>\<open>while True\<close> loop: \<^verbatim>\<open>random.choice\<close> takes the pool entry at the drawn index
  (and raises \<^verbatim>\<open>IndexError\<close> on an empty pool). The result is the accepted pool
  utterance and the rest of the tape.
\<close>

fun sample_negative :: "store \<Rightarrow> addr list \<Rightarrow> int list \<Rightarrow> nat list \<Rightarrow> (py_error + addr \<times> nat list) option" where
  "sample_negative st pool positive_uttr_token_ids [] =
     (if pool = [] then Some (Inl IndexError) else None)"
| "sample_negative st pool positive_uttr_token_ids (k # tape) =
     (if pool = [] then Some (Inl IndexError)
      else let negative_uttr = pool ! (k mod length pool);
               negative_uttr_token_ids = token_ids (uttrs st ! negative_uttr)
           in case are_different_uttrs positive_uttr_token_ids negative_uttr_token_ids of
                Inl e \<Rightarrow> Some (Inl e)
              | Inr True \<Rightarrow> Some (Inr (negative_uttr, tape))
              | Inr False \<Rightarrow> sample_negative st pool positive_uttr_token_ids tape)"

text \<open>Assignments to a key of a dictionary in the store.\<close>

definition set_reference_uttr :: "addr \<Rightarrow> addr \<Rightarrow> store \<Rightarrow> store" where
  "set_reference_uttr a r st =
     (let m = utterance_meta (uttrs st ! a)
      in st\<lparr>metas := (metas st)[m := (metas st ! m)\<lparr>reference_uttr := Some r\<rparr>]\<rparr>)"

definition set_is_next :: "addr \<Rightarrow> bool \<Rightarrow> store \<Rightarrow> store" where
  "set_is_next a b st = st\<lparr>uttrs := (uttrs st)[a := (uttrs st ! a)\<lparr>is_next := b\<rparr>]\<rparr>"

text \<open>
  The body of the loop over \<^verbatim>\<open>segment_end_idx\<close>, for the session \<open>uttrs\<close>. The state
  is the store, \<^verbatim>\<open>self._segments\<close> and the random tape.
\<close>

definition build_segments :: "int \<Rightarrow> addr list \<Rightarrow> addr list \<Rightarrow> nat \<Rightarrow>
    store \<times> addr list list \<times> nat list \<Rightarrow> (py_error + store \<times> addr list list \<times> nat list) option" where
  "build_segments hl pool sess segment_end_idx s =
     (let st = fst s; segs = fst (snd s); tape = snd (snd s);
          segment_start_idx = nat (max 0 (int segment_end_idx - hl));
          segment = py_slice sess segment_start_idx (segment_end_idx + 1);
          positive_uttr = sess ! segment_end_idx;
          st1 = set_reference_uttr positive_uttr positive_uttr st;
          segs1 = segs @ [segment];
          positive_uttr_token_ids = token_ids (uttrs st1 ! positive_uttr)
      in case sample_negative st1 pool positive_uttr_token_ids tape of
           None \<Rightarrow> None
         | Some (Inl e) \<Rightarrow> Some (Inl e)
         | Some (Inr (chosen, tape')) \<Rightarrow>
             (let (st2, negative_uttr) = deepcopy_uttr st1 chosen;
                  st3 = set_reference_uttr negative_uttr positive_uttr st2;
                  st4 = set_is_next negative_uttr False st3;
                  segment' = py_slice sess segment_start_idx segment_end_idx @ [negative_uttr]
              in Some (Inr (st4, segs1 @ [segment'], tape'))))"

definition count_tokens :: "(string \<times> string) list list \<Rightarrow> nat" where
  "count_tokens data =
     sum_list (map (\<lambda>sess. sum_list (map (\<lambda>raw. length (py_split CHR '' '' (fst raw))) sess)) data)"

text \<open>
  \<^verbatim>\<open>DataSourceUnsupervised(data, config, tokenizer)\<close> with the random tape \<open>tape\<close>.
  A session of \<open>data\<close> is the list of the \<open>(text, floor)\<close> pairs of its utterances.
\<close>

definition DataSourceUnsupervised :: "(string \<times> string) list list \<Rightarrow> config \<Rightarrow> tokenizer \<Rightarrow> nat list \<Rightarrow>
    (py_error + data_source) option" where
  "DataSourceUnsupervised data cfg tok tape =
     (case process_uttrs cfg tok 0 (concat data) of
        Inl e \<Rightarrow> Some (Inl e)
      | Inr us \<Rightarrow>
          (let st0 = \<lparr>uttrs = us, metas = replicate (length us) \<lparr>reference_uttr = None\<rparr>\<rparr>;
               sessions = session_addrs 0 data;
               pool = concat sessions
           in case for_each (\<lambda>sess. for_each (build_segments (history_len cfg) pool sess)
                                 [1..<length sess]) sessions (st0, [], tape) of
                None \<Rightarrow> None
              | Some (Inl e) \<Rightarrow> Some (Inl e)
              | Some (Inr s) \<Rightarrow>
                  Some (Inr \<lparr>dataset_path = dataset_path cfg,
                             max_uttr_len = max_uttr_len cfg,
                             history_len = history_len cfg,
                             tokenizer = tok,
                             statistics = \<lparr>n_sessions = length data,
                                           n_uttrs = sum_list (map length data),
                                           n_tokens = count_tokens data,
                                           n_segments = length (fst (snd s))\<rparr>,
                             heap = fst s,
                             utterance_pool = pool,
                             priv_segments = fst (snd s),
                             segments = None,
                             cur_segment_idx = None\<rparr>)))"

subsection \<open>\<^verbatim>\<open>__len__\<close> and \<^verbatim>\<open>epoch_init\<close>\<close>

definition ds_len :: "data_source \<Rightarrow> nat" where
  "ds_len ds = length (priv_segments ds)"

definition epoch_init :: "bool \<Rightarrow> (nat \<Rightarrow> nat) \<Rightarrow> data_source \<Rightarrow> data_source" where
  "epoch_init shuffle rng ds =
     (if shuffle then
        (let (st', segs') = deepcopy_segments (heap ds) (priv_segments ds)
         in ds\<lparr>cur_segment_idx := Some 0, heap := st',
               segments := Some (random_shuffle rng segs')\<rparr>)
      else ds\<lparr>cur_segment_idx := Some 0, segments := Some (priv_segments ds)\<rparr>)"

subsection \<open>\<^verbatim>\<open>next\<close>\<close>

text \<open>
  The \<^verbatim>\<open>while\<close> loop of \<^verbatim>\<open>next\<close>. The result is the lists filled so far, or the
  exception raised, and the cursor. \<^verbatim>\<open>segment_uttrs[-1]\<close> raises \<^verbatim>\<open>IndexError\<close> on
  an empty list and the lookup of \<^verbatim>\<open>reference_uttr\<close> raises \<^verbatim>\<open>KeyError\<close> when the
  key is absent.
\<close>

function next_loop :: "store \<Rightarrow> int \<Rightarrow> addr list list \<Rightarrow> int \<Rightarrow> bool \<Rightarrow> int list \<Rightarrow> nat \<Rightarrow> locals \<Rightarrow>
    (py_error + locals) \<times> nat" where
  "next_loop st hl segs batch_size return_paired_Y empty_ids cur l =
     (if cur < length segs then
        if int (length (lY l)) = batch_size then (Inr l, cur)
        else let segment_uttrs = segs ! cur; cur' = cur + 1 in
          if segment_uttrs = [] then (Inl IndexError, cur')
          else let target = uttrs st ! last segment_uttrs in
            if return_paired_Y \<and> is_next target
            then next_loop st hl segs batch_size return_paired_Y empty_ids cur' l
            else let context = map (\<lambda>a. uttrs st ! a) (butlast segment_uttrs);
                     n_pad = nat (hl - int (length segment_uttrs) + 1)
                 in case reference_uttr (metas st ! utterance_meta target) of
                      None \<Rightarrow> (Inl KeyError, cur')
                    | Some ref_uttr \<Rightarrow>
                        next_loop st hl segs batch_size return_paired_Y empty_ids cur'
                          \<lparr>lX = lX l @ map token_ids context @ replicate n_pad empty_ids,
                           lY = lY l @ [token_ids target],
                           lY_ref = lY_ref l @ [token_ids (uttrs st ! ref_uttr)],
                           lX_floor = lX_floor l @ map floor_id context @ replicate n_pad 0,
                           lY_floor = lY_floor l @ [floor_id target],
                           lY_is_next = lY_is_next l @ [is_next target]\<rparr>
      else (Inr l, cur))"
  by pat_completeness auto
termination
  by (relation "measure (\<lambda>(st, hl, segs, batch_size, return_paired_Y, empty_ids, cur, l). length segs - cur)") auto

declare next_loop.simps [simp del]

text \<open>The tensor conversions after the loop.\<close>

definition make_batch :: "tokenizer \<Rightarrow> locals \<Rightarrow> py_error + batch" where
  "make_batch tok l =
     (let tX = convert_batch_ids_to_tensor tok (lX l);
          tY = convert_batch_ids_to_tensor tok (lY l);
          tY_ref = convert_batch_ids_to_tensor tok (lY_ref l);
          batch_size = length tY
      in if batch_size = 0 then Inl ZeroDivisionError
         else let history_len = length tX div batch_size
              in case view3 tX batch_size history_len of
                   Inl e \<Rightarrow> Inl e
                 | Inr vX \<Rightarrow>
                     (case view2 (lX_floor l) batch_size history_len of
                        Inl e \<Rightarrow> Inl e
                      | Inr vX_floor \<Rightarrow>
                          Inr \<lparr>X = vX, X_floor = vX_floor, Y = tY, Y_ref = tY_ref,
                               Y_floor = lY_floor l, Y_is_next = lY_is_next l\<rparr>))"

text \<open>
  \<^verbatim>\<open>next(batch_size, return_paired_Y)\<close>: the value returned (\<open>None\<close> is Python's
  \<^verbatim>\<open>None\<close>) or the exception raised, and the data source afterwards.
\<close>

definition ds_next :: "int \<Rightarrow> bool \<Rightarrow> data_source \<Rightarrow> (py_error + batch option) \<times> data_source" where
  "ds_next batch_size return_paired_Y ds =
     (case cur_segment_idx ds of
        None \<Rightarrow> (Inl AttributeError, ds)
      | Some cur \<Rightarrow>
          (case segments ds of
             None \<Rightarrow> (Inl AttributeError, ds)
           | Some segs \<Rightarrow>
               if cur = length segs then (Inr None, ds)
               else let empty_tokens = convert_string_to_tokens (tokenizer ds) [];
                        empty_ids = convert_tokens_to_ids (tokenizer ds) empty_tokens True;
                        r = next_loop (heap ds) (history_len ds) segs batch_size
                              return_paired_Y empty_ids cur
                              \<lparr>lX = [], lY = [], lY_ref = [], lX_floor = [],
                               lY_floor = [], lY_is_next = []\<rparr>;
                        ds' = ds\<lparr>cur_segment_idx := Some (snd r)\<rparr>
                    in case fst r of
                         Inl e \<Rightarrow> (Inl e, ds')
                       | Inr l \<Rightarrow>
                           (case make_batch (tokenizer ds) l of
                              Inl e \<Rightarrow> (Inl e, ds')
                            | Inr b \<Rightarrow> (Inr (Some b), ds'))))"

subsection \<open>Runs of the iteration protocol\<close>

text \<open>
  The data source after a sequence of calls \<^verbatim>\<open>next(batch_size, return_paired_Y)\<close>,
  whatever they returned or raised.
\<close>

fun iterate_next :: "(int \<times> bool) list \<Rightarrow> data_source \<Rightarrow> data_source" where
  "iterate_next [] ds = ds"
| "iterate_next (call # calls) ds =
     iterate_next calls (snd (ds_next (fst call) (snd call) ds))"

section \<open>Vocabulary of the statements\<close>

text \<open>
  The definitions of this section are not part of the program. They name what the
  statements below talk about.
\<close>

text \<open>The utterance that \<^verbatim>\<open>uttr["utterance_meta"]["reference_uttr"]\<close> points to.\<close>

definition ref_of :: "store \<Rightarrow> addr \<Rightarrow> addr option" where
  "ref_of st a = reference_uttr (metas st ! utterance_meta (uttrs st ! a))"

text \<open>The token ids that the constructor computes for an input utterance.\<close>

definition raw_token_ids :: "'a config_scheme \<Rightarrow> tokenizer \<Rightarrow> string \<times> string \<Rightarrow> int list" where
  "raw_token_ids cfg tok raw =
     convert_tokens_to_ids tok
       (py_slice_to (convert_string_to_tokens tok (fst raw)) (max_uttr_len cfg)) True"

text \<open>
  Construction order. A tag \<open>(k, e, positive)\<close> names the segment of session \<open>k\<close> with
  end index \<open>e\<close>, with its true target or with a sampled one. \<open>segment_tags\<close> lists
  the tags session by session, end indices ascending, the positive tag directly before
  the negative one.
\<close>

definition segment_tags :: "'a list list \<Rightarrow> (nat \<times> nat \<times> bool) list" where
  "segment_tags data =
     concat (map (\<lambda>k. concat (map (\<lambda>e. [(k, e, True), (k, e, False)])
                                  [1..<length (data ! k)]))
                 [0..<length data])"

text \<open>The order of the tags in an epoch: shuffled as the segments are.\<close>

definition epoch_tags :: "bool \<Rightarrow> (nat \<Rightarrow> nat) \<Rightarrow> 'a list list \<Rightarrow> (nat \<times> nat \<times> bool) list" where
  "epoch_tags shuffle rng data =
     (if shuffle then random_shuffle rng (segment_tags data) else segment_tags data)"

text \<open>
  The context slots of one sample as \<^verbatim>\<open>next\<close> emits them, and as the specification
  words them (``left-padded'').
\<close>

definition slots :: "int \<Rightarrow> 'a \<Rightarrow> 'a list \<Rightarrow> 'a list" where
  "slots hl pad ctx = ctx @ replicate (nat (hl - int (length ctx + 1) + 1)) pad"

definition left_padded_slots :: "int \<Rightarrow> 'a \<Rightarrow> 'a list \<Rightarrow> 'a list" where
  "left_padded_slots hl pad ctx = replicate (nat (hl - int (length ctx + 1) + 1)) pad @ ctx"

text \<open>A row of a padded tensor of width \<open>w\<close>.\<close>

definition pad_row :: "tokenizer \<Rightarrow> nat \<Rightarrow> int list \<Rightarrow> int list" where
  "pad_row tok w ids = ids @ replicate (w - length ids) (pad_token_id tok)"

subsection \<open>What \<^verbatim>\<open>next\<close> reads of a segment\<close>

record view =
  ctx_ids :: "int list list"
  ctx_floors :: "nat list"
  tgt_ids :: "int list"
  tgt_floor :: nat
  tgt_is_next :: bool
  ref_ids :: "int list option"

definition seg_view :: "store \<Rightarrow> addr list \<Rightarrow> view option" where
  "seg_view st seg =
     (if seg = [] then None
      else Some \<lparr>ctx_ids = map (\<lambda>a. token_ids (uttrs st ! a)) (butlast seg),
                 ctx_floors = map (\<lambda>a. floor_id (uttrs st ! a)) (butlast seg),
                 tgt_ids = token_ids (uttrs st ! last seg),
                 tgt_floor = floor_id (uttrs st ! last seg),
                 tgt_is_next = is_next (uttrs st ! last seg),
                 ref_ids = map_option (\<lambda>r. token_ids (uttrs st ! r)) (ref_of st (last seg))\<rparr>)"

definition add_view :: "int \<Rightarrow> int list \<Rightarrow> view \<Rightarrow> int list \<Rightarrow> locals \<Rightarrow> locals" where
  "add_view hl empty_ids w r l =
     \<lparr>lX = lX l @ slots hl empty_ids (ctx_ids w),
      lY = lY l @ [tgt_ids w],
      lY_ref = lY_ref l @ [r],
      lX_floor = lX_floor l @ slots hl 0 (ctx_floors w),
      lY_floor = lY_floor l @ [tgt_floor w],
      lY_is_next = lY_is_next l @ [tgt_is_next w]\<rparr>"

text \<open>
  The loop of \<^verbatim>\<open>next\<close> over the views of the segments from the cursor on; the
  number returned is the number of segments consumed. \<open>next_loop_collect\<close> below shows
  that \<open>next_loop\<close> computes this.
\<close>

fun collect :: "int \<Rightarrow> int \<Rightarrow> bool \<Rightarrow> int list \<Rightarrow> view option list \<Rightarrow> locals \<Rightarrow> (py_error + locals) \<times> nat" where
  "collect hl bs p e [] l = (Inr l, 0)"
| "collect hl bs p e (v # vs) l =
     (if int (length (lY l)) = bs then (Inr l, 0)
      else (case v of
              None \<Rightarrow> (Inl IndexError, 1)
            | Some w \<Rightarrow>
                if p \<and> tgt_is_next w then apsnd Suc (collect hl bs p e vs l)
                else (case ref_ids w of
                        None \<Rightarrow> (Inl KeyError, 1)
                      | Some r \<Rightarrow> apsnd Suc (collect hl bs p e vs (add_view hl e w r l)))))"

text \<open>The views \<^verbatim>\<open>next\<close> puts into a batch: all, or the negatives only.\<close>

definition accepted :: "bool \<Rightarrow> view list \<Rightarrow> view list" where
  "accepted p ws = filter (\<lambda>w. \<not> (p \<and> tgt_is_next w)) ws"

text \<open>The lists of \<^verbatim>\<open>next\<close> after the views \<open>ws\<close> have been put in.\<close>

definition put_views :: "int \<Rightarrow> int list \<Rightarrow> view list \<Rightarrow> locals \<Rightarrow> locals" where
  "put_views hl e ws l =
     \<lparr>lX = lX l @ concat (map (\<lambda>w. slots hl e (ctx_ids w)) ws),
      lY = lY l @ map tgt_ids ws,
      lY_ref = lY_ref l @ map (\<lambda>w. the (ref_ids w)) ws,
      lX_floor = lX_floor l @ concat (map (\<lambda>w. slots hl 0 (ctx_floors w)) ws),
      lY_floor = lY_floor l @ map tgt_floor ws,
      lY_is_next = lY_is_next l @ map tgt_is_next ws\<rparr>"

subsection \<open>Two small data sources\<close>

text \<open>
  The end-to-end example of the specification: one session of three utterances and
  \<open>history_len = 5\<close>. The tokenizer splits at spaces, gives the token \<open>w\<close> the id
  \<open>10 + length w\<close>, and uses \<open>1\<close>, \<open>2\<close> and \<open>0\<close> as bos, eos and pad id. The second
  data source has one session of two utterances.
\<close>

definition ex_tokenizer :: tokenizer where
  "ex_tokenizer =
     \<lparr>convert_string_to_tokens = (\<lambda>s. filter (\<lambda>w. w \<noteq> []) (py_split CHR '' '' s)),
      convert_tokens_to_ids =
        (\<lambda>toks b. (if b then [1] else []) @ map (\<lambda>w. 10 + int (length w)) toks
                   @ (if b then [2] else [])),
      pad_token_id = 0\<rparr>"

definition ex_config :: config where
  "ex_config = \<lparr>dataset_path = ''data'', max_uttr_len = 40, history_len = 5\<rparr>"

definition ex_data :: "(string \<times> string) list list" where
  "ex_data = [[(''hi'', ''A''), (''hello there'', ''B''), (''how are you'', ''A'')]]"

definition ex_tape :: "nat list" where
  "ex_tape = [1, 1, 0, 2, 0]"

definition ex_rng :: "nat \<Rightarrow> nat" where
  "ex_rng k = 0"

definition ex_ds :: data_source where
  "ex_ds = projr (the (DataSourceUnsupervised ex_data ex_config ex_tokenizer ex_tape))"

definition ex_pair_data :: "(string \<times> string) list list" where
  "ex_pair_data = [[(''hi'', ''A''), (''hello there'', ''B'')]]"

definition ex_pair_ds :: data_source where
  "ex_pair_ds = projr (the (DataSourceUnsupervised ex_pair_data ex_config ex_tokenizer [0]))"

subsection \<open>Invariants of the constructor\<close>

text \<open>The first utterance of session \<open>k\<close> has the address \<open>offset data k\<close>.\<close>

definition offset :: "'a list list \<Rightarrow> nat \<Rightarrow> nat" where
  "offset data k = sum_list (map length (take k data))"

text \<open>
  What the tokenization pass leaves: the utterance at \<open>a\<close> owns the meta object at \<open>a\<close>
  and is a true next utterance.
\<close>

definition pool_ok :: "uttr list \<Rightarrow> bool" where
  "pool_ok us \<longleftrightarrow> (\<forall>a<length us. utterance_meta (us ! a) = a \<and> is_next (us ! a))"

text \<open>
  The store while the segments are built, \<open>us\<close> being the utterances after the
  tokenization pass: the pool utterances are unchanged; the meta of a pool utterance
  points nowhere or to its owner; the copies and their metas lie behind the pool, and
  the meta of a copy points into the pool.
\<close>

definition cinv :: "uttr list \<Rightarrow> store \<Rightarrow> bool" where
  "cinv us st \<longleftrightarrow>
     length us \<le> length (uttrs st) \<and> take (length us) (uttrs st) = us \<and>
     length us \<le> length (metas st) \<and>
     (\<forall>a<length us. reference_uttr (metas st ! a) = None \<or> reference_uttr (metas st ! a) = Some a) \<and>
     (\<forall>a. length us \<le> a \<and> a < length (uttrs st) \<longrightarrow>
          length us \<le> utterance_meta (uttrs st ! a) \<and> utterance_meta (uttrs st ! a) < length (metas st)) \<and>
     (\<forall>m. length us \<le> m \<and> m < length (metas st) \<longrightarrow>
          (\<exists>r<length us. reference_uttr (metas st ! m) = Some r))"

text \<open>The segment \<open>seg\<close> is the one that the tag names.\<close>

definition seg_ok :: "uttr list \<Rightarrow> int \<Rightarrow> addr list list \<Rightarrow> store \<Rightarrow> addr list \<Rightarrow> nat \<times> nat \<times> bool \<Rightarrow> bool" where
  "seg_ok us hl sessions st seg tag \<longleftrightarrow>
     (let sess = sessions ! fst tag; e = fst (snd tag); pos = sess ! e;
          start = nat (max 0 (int e - hl))
      in pos < length us
         \<and> reference_uttr (metas st ! pos) = Some pos
         \<and> (if snd (snd tag) then seg = py_slice sess start (Suc e)
            else (\<exists>n c m.
                    seg = py_slice sess start e @ [n]
                    \<and> length us \<le> n \<and> n < length (uttrs st)
                    \<and> c < length us
                    \<and> uttrs st ! n = (us ! c)\<lparr>utterance_meta := m, is_next := False\<rparr>
                    \<and> length us \<le> m \<and> m < length (metas st)
                    \<and> reference_uttr (metas st ! m) = Some pos
                    \<and> are_different_uttrs (token_ids (us ! pos)) (token_ids (us ! c)) = Inr True)))"

definition tags_of :: "(nat \<times> nat) list \<Rightarrow> (nat \<times> nat \<times> bool) list" where
  "tags_of ps = concat (map (\<lambda>p. [(fst p, snd p, True), (fst p, snd p, False)]) ps)"

text \<open>
  The ids of the padding utterance, and the batch \<^verbatim>\<open>next\<close> returns when it has put
  the views \<open>ws\<close> in.
\<close>

definition empty_ids :: "tokenizer \<Rightarrow> int list" where
  "empty_ids tok = convert_tokens_to_ids tok (convert_string_to_tokens tok []) True"

definition batch_of :: "tokenizer \<Rightarrow> int \<Rightarrow> view list \<Rightarrow> batch" where
  "batch_of tok hl ws =
     \<lparr>X = map (\<lambda>w. map (pad_row tok (fold max (map length
                      (concat (map (\<lambda>w. slots hl (empty_ids tok) (ctx_ids w)) ws))) 0))
                    (slots hl (empty_ids tok) (ctx_ids w))) ws,
      X_floor = map (\<lambda>w. slots hl 0 (ctx_floors w)) ws,
      Y = convert_batch_ids_to_tensor tok (map tgt_ids ws),
      Y_ref = convert_batch_ids_to_tensor tok (map (\<lambda>w. the (ref_ids w)) ws),
      Y_floor = map tgt_floor ws,
      Y_is_next = map tgt_is_next ws\<rparr>"

subsection \<open>Invariants of \<^verbatim>\<open>copy.deepcopy\<close>\<close>

text \<open>
  No pointer of the store dangles; and every pointer of a memo's objects leads into the
  memo, but for pointers to the utterances in \<open>pending\<close>.
\<close>

definition wf_store :: "store \<Rightarrow> bool" where
  "wf_store st \<longleftrightarrow>
     (\<forall>a<length (uttrs st). utterance_meta (uttrs st ! a) < length (metas st))
     \<and> (\<forall>m<length (metas st). \<forall>r. reference_uttr (metas st ! m) = Some r \<longrightarrow> r < length (uttrs st))"

definition memo_closed :: "store \<Rightarrow> addr list \<times> maddr list \<Rightarrow> addr set \<Rightarrow> bool" where
  "memo_closed st memo pending \<longleftrightarrow>
     (\<forall>a \<in> set (fst memo). a < length (uttrs st) \<and> utterance_meta (uttrs st ! a) \<in> set (snd memo))
     \<and> (\<forall>m \<in> set (snd memo). \<forall>r. reference_uttr (metas st ! m) = Some r \<longrightarrow>
            r \<in> set (fst memo) \<or> r \<in> pending)"

text \<open>
  The view \<open>v\<close> is the view of the segment that the tag names: the context is the
  window of the session, the reference is the true positive, and \<^verbatim>\<open>is_next\<close> tells a
  positive from a negative target.
\<close>

definition view_ok :: "'a config_scheme \<Rightarrow> tokenizer \<Rightarrow> (string \<times> string) list list \<Rightarrow>
    view option \<Rightarrow> nat \<times> nat \<times> bool \<Rightarrow> bool" where
  "view_ok cfg tok data v tag \<longleftrightarrow>
     (\<exists>w. v = Some w \<and> tgt_is_next w = snd (snd tag)
        \<and> ref_ids w = Some (raw_token_ids cfg tok (data ! fst tag ! fst (snd tag)))
        \<and> ctx_ids w = map (\<lambda>j. raw_token_ids cfg tok (data ! fst tag ! j))
                         [nat (max 0 (int (fst (snd tag)) - history_len cfg))..<fst (snd tag)]
        \<and> length (ctx_floors w) = length (ctx_ids w)
        \<and> 1 \<le> length (ctx_ids w) \<and> int (length (ctx_ids w)) \<le> history_len cfg
        \<and> (snd (snd tag) \<longrightarrow> tgt_ids w = raw_token_ids cfg tok (data ! fst tag ! fst (snd tag))))"

subsection \<open>Inputs on which the constructor finishes\<close>

text \<open>
  The conditions under which the constructor neither raises nor samples forever: every
  floor is \<^verbatim>\<open>"A"\<close> or \<^verbatim>\<open>"B"\<close> (\<^verbatim>\<open>index\<close> raises \<^verbatim>\<open>ValueError\<close> on another), no
  utterance has an empty id set (\<^verbatim>\<open>_are_different_uttrs\<close> divides by its size), and for
  every end index of every session some utterance of the pool passes the dissimilarity
  test against the true next utterance (otherwise the \<^verbatim>\<open>while True\<close> loop never ends).
\<close>

definition well_formed :: "'a config_scheme \<Rightarrow> tokenizer \<Rightarrow> (string \<times> string) list list \<Rightarrow> bool" where
  "well_formed cfg tok data \<longleftrightarrow>
     (\<forall>raw \<in> set (concat data). snd raw \<in> {''A'', ''B''} \<and> set (raw_token_ids cfg tok raw) \<noteq> {})
     \<and> (\<forall>sess \<in> set data. \<forall>e \<in> set [1..<length sess]. \<exists>c \<in> set (concat data).
           coverage_score (raw_token_ids cfg tok (sess ! e)) (raw_token_ids cfg tok c) < 8 / 10)"

text \<open>
  The position in the segment list of the positive segment of session \<open>k\<close> and end index
  \<open>e\<close>: the sessions before \<open>k\<close> contribute \<open>2 * (n - 1)\<close> segments each, the end indices
  before \<open>e\<close> two each. The negative segment is at the next position.
\<close>

definition segment_index :: "'a list list \<Rightarrow> nat \<Rightarrow> nat \<Rightarrow> nat" where
  "segment_index data k e = (\<Sum>sess\<leftarrow>take k data. 2 * (length sess - 1)) + 2 * (e - 1)"

section \<open>Properties of the dissimilarity test\<close>

lemma coverage_score_commute: "coverage_score a b = coverage_score b a"
  by (simp add: coverage_score_def Let_def Int_commute add.commute)

lemma are_different_uttrs_True_iff:
  "are_different_uttrs a b = Inr True \<longleftrightarrow>
     set a \<noteq> {} \<and> set b \<noteq> {} \<and> coverage_score a b < 8 / 10"
  by (auto simp: are_different_uttrs_def)

lemma coverage_score_self: "set a \<noteq> {} \<Longrightarrow> coverage_score a a = 1"
  by (simp add: coverage_score_def Let_def)

lemma are_different_uttrs_self: "are_different_uttrs a a \<noteq> Inr True"
  by (auto simp: are_different_uttrs_def coverage_score_self)

text \<open>
  Claim C10. For id sequences whose sets of unique ids are both non-empty,
  \<^verbatim>\<open>_are_different_uttrs\<close> returns (it does not raise), and it returns the same
  decision for both argument orders, because the coverage score is symmetric.
\<close>

theorem are_different_uttrs_symmetric:
  "set a \<noteq> {} \<Longrightarrow> set b \<noteq> {} \<Longrightarrow>
   \<exists>d. are_different_uttrs a b = Inr d \<and> are_different_uttrs b a = Inr d
       \<and> (d \<longleftrightarrow> coverage_score a b < 8 / 10)
       \<and> coverage_score a b = coverage_score b a"
  by (auto simp: are_different_uttrs_def coverage_score_commute)

theorem are_different_uttrs_symmetric_witness:
  "are_different_uttrs [1, 12, 2] [1, 15, 15, 2] = Inr True
   \<and> are_different_uttrs [1, 15, 15, 2] [1, 12, 2] = Inr True"
  using are_different_uttrs_symmetric [of "[1, 12, 2]" "[1, 15, 15, 2]"]
  by (auto simp: coverage_score_def Let_def)

section \<open>Loops\<close>

lemma for_each_append:
  "for_each body (xs @ ys) s =
     (case for_each body xs s of
        None \<Rightarrow> None
      | Some (Inl e) \<Rightarrow> Some (Inl e)
      | Some (Inr s') \<Rightarrow> for_each body ys s')"
  by (induction xs arbitrary: s) (auto split: option.splits sum.splits)

lemma for_each_invariant:
  assumes "for_each body xs s = Some (Inr s')"
    and "P pre s"
    and "\<And>pre x t t'. P pre t \<Longrightarrow> x \<in> set xs \<Longrightarrow> body x t = Some (Inr t') \<Longrightarrow> P (pre @ [x]) t'"
  shows "P (pre @ xs) s'"
  using assms
proof (induction xs arbitrary: s pre)
  case Nil
  then show ?case by simp
next
  case (Cons x xs)
  from Cons.prems(1) obtain t where t: "body x s = Some (Inr t)" and r: "for_each body xs t = Some (Inr s')"
    by (auto split: option.splits sum.splits)
  have "P (pre @ [x]) t" using Cons.prems(2,3) t by simp
  from Cons.IH [OF r this] Cons.prems(3) show ?case by simp
qed

lemma for_each_nested:
  "for_each (\<lambda>x. for_each (f x) (g x)) xs s =
   for_each (\<lambda>p. f (fst p) (snd p)) (concat (map (\<lambda>x. map (Pair x) (g x)) xs)) s"
proof (induction xs arbitrary: s)
  case Nil
  then show ?case by simp
next
  case (Cons x xs)
  have "for_each (\<lambda>p. f (fst p) (snd p)) (map (Pair x) ys) t = for_each (f x) ys t" for ys t
    by (induction ys arbitrary: t) (auto split: option.splits sum.splits)
  then show ?case
    using Cons.IH by (simp add: for_each_append split: option.splits sum.splits)
qed

lemma for_each_map: "for_each body (map h xs) s = for_each (\<lambda>x. body (h x)) xs s"
  by (induction xs arbitrary: s) (auto split: option.splits sum.splits)

section \<open>The loop of \<^verbatim>\<open>next\<close> over views\<close>


lemma next_loop_done:
  "\<not> cur < length segs \<Longrightarrow> next_loop st hl segs bs p e cur l = (Inr l, cur)"
  by (subst next_loop.simps) simp

lemma next_loop_full:
  "cur < length segs \<Longrightarrow> int (length (lY l)) = bs \<Longrightarrow>
   next_loop st hl segs bs p e cur l = (Inr l, cur)"
  by (subst next_loop.simps) simp

lemma next_loop_empty:
  "cur < length segs \<Longrightarrow> int (length (lY l)) \<noteq> bs \<Longrightarrow> segs ! cur = [] \<Longrightarrow>
   next_loop st hl segs bs p e cur l = (Inl IndexError, Suc cur)"
  by (subst next_loop.simps) simp

lemma next_loop_skip:
  "cur < length segs \<Longrightarrow> int (length (lY l)) \<noteq> bs \<Longrightarrow> segs ! cur \<noteq> [] \<Longrightarrow>
   p \<and> is_next (uttrs st ! last (segs ! cur)) \<Longrightarrow>
   next_loop st hl segs bs p e cur l = next_loop st hl segs bs p e (Suc cur) l"
  by (subst next_loop.simps) simp

lemma next_loop_keyerror:
  "cur < length segs \<Longrightarrow> int (length (lY l)) \<noteq> bs \<Longrightarrow> segs ! cur \<noteq> [] \<Longrightarrow>
   \<not> (p \<and> is_next (uttrs st ! last (segs ! cur))) \<Longrightarrow>
   ref_of st (last (segs ! cur)) = None \<Longrightarrow>
   next_loop st hl segs bs p e cur l = (Inl KeyError, Suc cur)"
  by (subst next_loop.simps) (auto simp: ref_of_def Let_def)

lemma next_loop_take:
  assumes "cur < length segs" "int (length (lY l)) \<noteq> bs" "segs ! cur \<noteq> []"
    and "\<not> (p \<and> is_next (uttrs st ! last (segs ! cur)))"
    and "ref_of st (last (segs ! cur)) = Some r"
  shows "next_loop st hl segs bs p e cur l =
     next_loop st hl segs bs p e (Suc cur)
       (add_view hl e (the (seg_view st (segs ! cur))) (token_ids (uttrs st ! r)) l)"
proof -
  have len: "hl - int (length (segs ! cur)) + 1 = hl - int (length (butlast (segs ! cur)) + 1) + 1"
    using assms(3) by (simp add: Suc_leI)
  have av: "add_view hl e (the (seg_view st (segs ! cur))) (token_ids (uttrs st ! r)) l =
      \<lparr>lX = lX l @ map token_ids (map (\<lambda>a. uttrs st ! a) (butlast (segs ! cur)))
               @ replicate (nat (hl - int (length (segs ! cur)) + 1)) e,
       lY = lY l @ [token_ids (uttrs st ! last (segs ! cur))],
       lY_ref = lY_ref l @ [token_ids (uttrs st ! r)],
       lX_floor = lX_floor l @ map floor_id (map (\<lambda>a. uttrs st ! a) (butlast (segs ! cur)))
               @ replicate (nat (hl - int (length (segs ! cur)) + 1)) 0,
       lY_floor = lY_floor l @ [floor_id (uttrs st ! last (segs ! cur))],
       lY_is_next = lY_is_next l @ [is_next (uttrs st ! last (segs ! cur))]\<rparr>"
    using assms(3) unfolding len
    by (simp add: add_view_def seg_view_def slots_def comp_def del: length_butlast)
  show ?thesis
    unfolding av using assms
    by (subst next_loop.simps) (auto simp: ref_of_def Let_def)
qed

lemma collect_take:
  assumes "int (length (lY l)) \<noteq> bs" "v = Some w" "\<not> (p \<and> tgt_is_next w)" "ref_ids w = Some r"
  shows "collect hl bs p e (v # vs) l = apsnd Suc (collect hl bs p e vs (add_view hl e w r l))"
  using assms by auto

lemma collect_skip:
  assumes "int (length (lY l)) \<noteq> bs" "v = Some w" "p \<and> tgt_is_next w"
  shows "collect hl bs p e (v # vs) l = apsnd Suc (collect hl bs p e vs l)"
  using assms by auto

lemma next_loop_collect:
  "cur \<le> length segs \<Longrightarrow>
   next_loop st hl segs bs p e cur l =
     apsnd ((+) cur) (collect hl bs p e (map (seg_view st) (drop cur segs)) l)"
proof (induction "length segs - cur" arbitrary: cur l)
  case 0
  then show ?case by (simp add: next_loop_done)
next
  case (Suc n)
  then have lt: "cur < length segs" by simp
  then have d: "drop cur segs = segs ! cur # drop (Suc cur) segs"
    by (simp add: Cons_nth_drop_Suc)
  have ih: "next_loop st hl segs bs p e (Suc cur) l' =
     apsnd ((+) (Suc cur)) (collect hl bs p e (map (seg_view st) (drop (Suc cur) segs)) l')" for l'
    using Suc.hyps(1) [of "Suc cur" l'] Suc.hyps(2) lt by simp
  have shift: "apsnd ((+) (Suc cur)) x = apsnd ((+) cur) (apsnd Suc x)" for x :: "(py_error + locals) \<times> nat"
    by (cases x) simp
  show ?case
  proof (cases "int (length (lY l)) = bs")
    case True
    then show ?thesis using lt d by (simp add: next_loop_full)
  next
    case nb: False
    show ?thesis
    proof (cases "segs ! cur = []")
      case True
      then show ?thesis using lt d nb by (simp add: next_loop_empty seg_view_def)
    next
      case ne: False
      then obtain w where w: "seg_view st (segs ! cur) = Some w"
        by (simp add: seg_view_def)
      have wn: "tgt_is_next w = is_next (uttrs st ! last (segs ! cur))"
        and wr: "ref_ids w = map_option (\<lambda>r. token_ids (uttrs st ! r)) (ref_of st (last (segs ! cur)))"
        using w ne by (auto simp: seg_view_def)
      show ?thesis
      proof (cases "p \<and> is_next (uttrs st ! last (segs ! cur))")
        case True
        have "next_loop st hl segs bs p e cur l = next_loop st hl segs bs p e (Suc cur) l"
          by (rule next_loop_skip [OF lt nb ne True])
        also have "\<dots> = apsnd ((+) cur) (apsnd Suc
            (collect hl bs p e (map (seg_view st) (drop (Suc cur) segs)) l))"
          unfolding ih shift ..
        also have "apsnd Suc (collect hl bs p e (map (seg_view st) (drop (Suc cur) segs)) l) =
            collect hl bs p e (map (seg_view st) (drop cur segs)) l"
          unfolding d list.map w
          by (rule collect_skip [symmetric, OF nb refl]) (use True wn in simp)
        finally show ?thesis .
      next
        case np: False
        show ?thesis
        proof (cases "ref_of st (last (segs ! cur))")
          case None
          then show ?thesis
            using lt nb ne np w wn wr by (auto simp: next_loop_keyerror d)
        next
          case (Some r)
          have c: "collect hl bs p e (map (seg_view st) (drop cur segs)) l =
                apsnd Suc (collect hl bs p e (map (seg_view st) (drop (Suc cur) segs))
                   (add_view hl e w (token_ids (uttrs st ! r)) l))"
            unfolding d list.map w
            by (rule collect_take [OF nb refl]) (use np wn wr Some in simp_all)
          have "next_loop st hl segs bs p e cur l =
              next_loop st hl segs bs p e (Suc cur) (add_view hl e w (token_ids (uttrs st ! r)) l)"
            using next_loop_take [OF lt nb ne np Some, of hl e] w by simp
          also have "\<dots> = apsnd ((+) cur) (apsnd Suc
              (collect hl bs p e (map (seg_view st) (drop (Suc cur) segs))
                 (add_view hl e w (token_ids (uttrs st ! r)) l)))"
            unfolding ih shift ..
          finally show ?thesis unfolding c .
        qed
      qed
    qed
  qed
qed

lemma put_views_Nil: "put_views hl e [] l = l"
  by (simp add: put_views_def)

lemma put_views_add_view:
  "ref_ids w = Some r \<Longrightarrow> put_views hl e ws (add_view hl e w r l) = put_views hl e (w # ws) l"
  by (simp add: put_views_def add_view_def)

lemma lY_put_views: "lY (put_views hl e ws l) = lY l @ map tgt_ids ws"
  by (simp add: put_views_def)

lemma collect_le: "snd (collect hl bs p e vs l) \<le> length vs"
  by (induction vs arbitrary: l) (auto split: option.splits)

lemma collect_Inr:
  "collect hl bs p e vs l = (Inr l', n) \<Longrightarrow>
     n \<le> length vs \<and> (\<forall>v \<in> set (take n vs). v \<noteq> None)
     \<and> (\<forall>w \<in> set (accepted p (map the (take n vs))). ref_ids w \<noteq> None)
     \<and> l' = put_views hl e (accepted p (map the (take n vs))) l
     \<and> (n = length vs \<or> int (length (lY l')) = bs)"
proof (induction vs arbitrary: l l' n)
  case Nil
  then show ?case by (simp add: put_views_Nil accepted_def)
next
  case (Cons v vs)
  show ?case
  proof (cases "int (length (lY l)) = bs")
    case True
    with Cons.prems show ?thesis by (auto simp: put_views_Nil accepted_def)
  next
    case nb: False
    with Cons.prems obtain w where v: "v = Some w"
      by (cases v) auto
    show ?thesis
    proof (cases "p \<and> tgt_is_next w")
      case True
      with Cons.prems nb v obtain m where
        c: "collect hl bs p e vs l = (Inr l', m)" and n: "n = Suc m"
        by (cases "collect hl bs p e vs l") auto
      from Cons.IH [OF c] show ?thesis
        using n v True by (auto simp: accepted_def)
    next
      case np: False
      with Cons.prems nb v obtain r where r: "ref_ids w = Some r"
        by (cases "ref_ids w") auto
      with Cons.prems nb v np obtain m where
        c: "collect hl bs p e vs (add_view hl e w r l) = (Inr l', m)" and n: "n = Suc m"
        by (cases "collect hl bs p e vs (add_view hl e w r l)") auto
      from Cons.IH [OF c] show ?thesis
        using n v np r by (auto simp: accepted_def put_views_add_view)
    qed
  qed
qed

lemma collect_total:
  "\<forall>v \<in> set vs. \<exists>w. v = Some w \<and> ref_ids w \<noteq> None \<Longrightarrow>
   \<exists>l'. fst (collect hl bs p e vs l) = Inr l'"
proof (induction vs arbitrary: l)
  case Nil
  then show ?case by simp
next
  case (Cons v vs)
  then obtain w r where v: "v = Some w" and r: "ref_ids w = Some r" by auto
  from Cons have ih: "\<exists>l'. fst (collect hl bs p e vs l0) = Inr l'" for l0 by simp
  show ?case
    using v r ih [of l] ih [of "add_view hl e w r l"] by auto
qed

lemma collect_bound:
  "collect hl bs p e vs l = (Inr l', n) \<Longrightarrow> int (length (lY l)) \<le> bs \<Longrightarrow>
   int (length (lY l')) \<le> bs"
proof (induction vs arbitrary: l l' n)
  case Nil
  then show ?case by simp
next
  case (Cons v vs)
  show ?case
  proof (cases "int (length (lY l)) = bs")
    case True
    with Cons.prems show ?thesis by auto
  next
    case nb: False
    with Cons.prems obtain w where v: "v = Some w"
      by (cases v) auto
    show ?thesis
    proof (cases "p \<and> tgt_is_next w")
      case True
      with Cons.prems nb v obtain m where
        c: "collect hl bs p e vs l = (Inr l', m)"
        by (cases "collect hl bs p e vs l") auto
      from Cons.IH [OF c] Cons.prems(2) show ?thesis by simp
    next
      case np: False
      with Cons.prems nb v obtain r where r: "ref_ids w = Some r"
        by (cases "ref_ids w") auto
      with Cons.prems nb v np obtain m where
        c: "collect hl bs p e vs (add_view hl e w r l) = (Inr l', m)"
        by (cases "collect hl bs p e vs (add_view hl e w r l)") auto
      have "int (length (lY (add_view hl e w r l))) \<le> bs"
        using nb Cons.prems(2) by (simp add: add_view_def)
      from Cons.IH [OF c this] show ?thesis .
    qed
  qed
qed

section \<open>The cursor\<close>

lemma ds_next_exhausted:
  "segments ds = Some segs \<Longrightarrow> cur_segment_idx ds = Some (length segs) \<Longrightarrow>
   ds_next bs p ds = (Inr None, ds)"
  by (simp add: ds_next_def)

lemma ds_next_state:
  assumes "segments ds = Some segs" "cur_segment_idx ds = Some c" "c \<le> length segs"
  shows "\<exists>c'. snd (ds_next bs p ds) = ds\<lparr>cur_segment_idx := Some c'\<rparr> \<and> c \<le> c' \<and> c' \<le> length segs"
proof (cases "c = length segs")
  case True
  then have "snd (ds_next bs p ds) = ds" using assms by (simp add: ds_next_exhausted)
  also have "ds = ds\<lparr>cur_segment_idx := Some c\<rparr>" using assms(2) by (cases ds) simp
  finally show ?thesis using assms(3) by blast
next
  case False
  define e where "e = convert_tokens_to_ids (tokenizer ds) (convert_string_to_tokens (tokenizer ds) []) True"
  define l0 where "l0 = \<lparr>lX = [], lY = [], lY_ref = [], lX_floor = [], lY_floor = [], lY_is_next = ([] :: bool list)\<rparr>"
  define r where "r = next_loop (heap ds) (history_len ds) segs bs p e c l0"
  have s: "snd (ds_next bs p ds) = ds\<lparr>cur_segment_idx := Some (snd r)\<rparr>"
    using assms False
    by (simp add: ds_next_def Let_def r_def e_def l0_def split: sum.splits)
  have "snd r = c + snd (collect (history_len ds) bs p e (map (seg_view (heap ds)) (drop c segs)) l0)"
    unfolding r_def by (simp add: next_loop_collect assms(3))
  moreover have "snd (collect (history_len ds) bs p e (map (seg_view (heap ds)) (drop c segs)) l0)
      \<le> length (map (seg_view (heap ds)) (drop c segs))"
    by (rule collect_le)
  ultimately have "c \<le> snd r \<and> snd r \<le> length segs" using assms(3) by simp
  with s show ?thesis by blast
qed

lemma ds_next_None_iff:
  assumes "segments ds = Some segs" "cur_segment_idx ds = Some c"
  shows "fst (ds_next bs p ds) = Inr None \<longleftrightarrow> c = length segs"
  using assms by (auto simp: ds_next_def Let_def split: sum.splits)

lemma iterate_next_state:
  assumes "segments ds = Some segs" "cur_segment_idx ds = Some c" "c \<le> length segs"
  shows "\<exists>c'. iterate_next calls ds = ds\<lparr>cur_segment_idx := Some c'\<rparr> \<and> c \<le> c' \<and> c' \<le> length segs"
  using assms
proof (induction calls arbitrary: ds c)
  case Nil
  have "ds = ds\<lparr>cur_segment_idx := Some c\<rparr>" using Nil(2) by (cases ds) simp
  then show ?case using Nil(3) by auto
next
  case (Cons call calls)
  from ds_next_state [OF Cons.prems, of "fst call" "snd call"] obtain c1 where
    c1: "snd (ds_next (fst call) (snd call) ds) = ds\<lparr>cur_segment_idx := Some c1\<rparr>"
      "c \<le> c1" "c1 \<le> length segs" by blast
  have "\<exists>c'. iterate_next calls (ds\<lparr>cur_segment_idx := Some c1\<rparr>)
       = ds\<lparr>cur_segment_idx := Some c1\<rparr>\<lparr>cur_segment_idx := Some c'\<rparr> \<and> c1 \<le> c' \<and> c' \<le> length segs"
    by (rule Cons.IH) (use Cons.prems c1 in simp_all)
  then show ?case using c1 by auto
qed

lemma epoch_init_state:
  "\<exists>segs. segments (epoch_init shuffle rng ds) = Some segs
     \<and> cur_segment_idx (epoch_init shuffle rng ds) = Some 0"
  by (simp add: epoch_init_def Let_def split: prod.splits)

text \<open>
  Claim C5. At any point of an epoch (after \<^verbatim>\<open>epoch_init\<close> and any calls of
  \<^verbatim>\<open>next\<close>) the cursor is at most the segment count; \<^verbatim>\<open>next\<close> returns \<^verbatim>\<open>None\<close>
  exactly when the cursor equals the segment count at the time of the call; a call
  leaves the cursor at most at the segment count; and once the cursor has reached the
  segment count, the call after returns \<^verbatim>\<open>None\<close>.
\<close>

theorem next_none_iff_exhausted:
  "\<exists>segs cur cur'.
     segments (iterate_next calls (epoch_init shuffle rng ds0)) = Some segs
     \<and> cur_segment_idx (iterate_next calls (epoch_init shuffle rng ds0)) = Some cur
     \<and> cur \<le> length segs
     \<and> (fst (ds_next bs p (iterate_next calls (epoch_init shuffle rng ds0))) = Inr None
          \<longleftrightarrow> cur = length segs)
     \<and> segments (snd (ds_next bs p (iterate_next calls (epoch_init shuffle rng ds0)))) = Some segs
     \<and> cur_segment_idx (snd (ds_next bs p (iterate_next calls (epoch_init shuffle rng ds0)))) = Some cur'
     \<and> cur \<le> cur' \<and> cur' \<le> length segs
     \<and> (cur' = length segs \<longrightarrow>
          fst (ds_next bs' p' (snd (ds_next bs p (iterate_next calls (epoch_init shuffle rng ds0)))))
            = Inr None)"
proof -
  let ?ds1 = "epoch_init shuffle rng ds0"
  let ?ds = "iterate_next calls ?ds1"
  from epoch_init_state obtain segs where
    e: "segments ?ds1 = Some segs" "cur_segment_idx ?ds1 = Some 0" by blast
  from iterate_next_state [OF e, of calls] obtain c where
    c: "?ds = ?ds1\<lparr>cur_segment_idx := Some c\<rparr>" "c \<le> length segs" by auto
  have s: "segments ?ds = Some segs"
    unfolding c(1) using e by simp
  have i: "cur_segment_idx ?ds = Some c"
    unfolding c(1) by simp
  from ds_next_state [OF s i c(2), of bs p] obtain c' where
    c': "snd (ds_next bs p ?ds) = ?ds\<lparr>cur_segment_idx := Some c'\<rparr>" "c \<le> c'" "c' \<le> length segs"
    by blast
  have s': "segments (snd (ds_next bs p ?ds)) = Some segs"
    and i': "cur_segment_idx (snd (ds_next bs p ?ds)) = Some c'"
    using c'(1) s by simp_all
  show ?thesis
    using s i c(2) ds_next_None_iff [OF s i, of bs p] s' i' c'(2,3)
      ds_next_None_iff [OF s' i', of bs' p']
    by blast
qed

theorem next_none_iff_exhausted_witness:
  "segments (epoch_init False ex_rng ex_ds) = Some [[0, 1], [0, 3], [0, 1, 2], [0, 1, 4]]
   \<and> cur_segment_idx (epoch_init False ex_rng ex_ds) = Some 0
   \<and> fst (ds_next 4 False (epoch_init False ex_rng ex_ds)) \<noteq> Inr None
   \<and> cur_segment_idx (snd (ds_next 4 False (epoch_init False ex_rng ex_ds))) = Some 4
   \<and> fst (ds_next 4 False (snd (ds_next 4 False (epoch_init False ex_rng ex_ds)))) = Inr None"
proof -
  have a: "segments (epoch_init False ex_rng ex_ds) = Some [[0, 1], [0, 3], [0, 1, 2], [0, 1, 4]]"
    by code_simp
  have b: "cur_segment_idx (epoch_init False ex_rng ex_ds) = Some 0"
    by code_simp
  have c: "cur_segment_idx (snd (ds_next 4 False (epoch_init False ex_rng ex_ds))) = Some 4"
    by code_simp
  from next_none_iff_exhausted [of "[]" False ex_rng ex_ds 4 False 4 False] a b c
  show ?thesis by auto
qed

section \<open>The example data sources\<close>

lemma ex_constructed:
  "DataSourceUnsupervised ex_data ex_config ex_tokenizer ex_tape = Some (Inr ex_ds)"
proof -
  have "(case DataSourceUnsupervised ex_data ex_config ex_tokenizer ex_tape of
           Some (Inr ds) \<Rightarrow> True | _ \<Rightarrow> False)"
    by code_simp
  then show ?thesis
    unfolding ex_ds_def by (auto split: option.splits sum.splits)
qed

lemma ex_pair_constructed:
  "DataSourceUnsupervised ex_pair_data ex_config ex_tokenizer [0] = Some (Inr ex_pair_ds)"
proof -
  have "(case DataSourceUnsupervised ex_pair_data ex_config ex_tokenizer [0] of
           Some (Inr ds) \<Rightarrow> True | _ \<Rightarrow> False)"
    by code_simp
  then show ?thesis
    unfolding ex_pair_ds_def by (auto split: option.splits sum.splits)
qed

text \<open>
  Claim C6, at a concrete input. One session of two utterances gives the segments
  \<open>[positive, negative]\<close>; \<^verbatim>\<open>epoch_init(shuffle=True)\<close> with a draw of \<open>0\<close> puts the
  negative first. The first \<^verbatim>\<open>next(1, return_paired_Y=True)\<close> returns the negative and
  leaves the cursor at \<open>1\<close>, strictly below the segment count \<open>2\<close>. The second call
  skips the remaining positive segment, so its batch is empty, and it raises
  \<^verbatim>\<open>ZeroDivisionError\<close> at \<^verbatim>\<open>X.size(0)//batch_size\<close> instead of returning an
  empty batch.
\<close>

theorem next_empty_batch_raises:
  "DataSourceUnsupervised ex_pair_data ex_config ex_tokenizer [0] = Some (Inr ex_pair_ds)
   \<and> priv_segments ex_pair_ds = [[0, 1], [0, 2]]
   \<and> segments (epoch_init True ex_rng ex_pair_ds) = Some [[3, 5], [3, 4]]
   \<and> is_next (uttrs (heap (epoch_init True ex_rng ex_pair_ds)) ! 5) = False
   \<and> is_next (uttrs (heap (epoch_init True ex_rng ex_pair_ds)) ! 4) = True
   \<and> map_sum id (map_option Y_is_next)
        (fst (ds_next 1 True (epoch_init True ex_rng ex_pair_ds))) = Inr (Some [False])
   \<and> cur_segment_idx (snd (ds_next 1 True (epoch_init True ex_rng ex_pair_ds))) = Some 1
   \<and> fst (ds_next 1 True (snd (ds_next 1 True (epoch_init True ex_rng ex_pair_ds))))
        = Inl ZeroDivisionError"
proof -
  have "priv_segments ex_pair_ds = [[0, 1], [0, 2]]"
    by code_simp
  moreover have "segments (epoch_init True ex_rng ex_pair_ds) = Some [[3, 5], [3, 4]]"
    by code_simp
  moreover have "is_next (uttrs (heap (epoch_init True ex_rng ex_pair_ds)) ! 5) = False"
    by code_simp
  moreover have "is_next (uttrs (heap (epoch_init True ex_rng ex_pair_ds)) ! 4) = True"
    by code_simp
  moreover have "map_sum id (map_option Y_is_next)
        (fst (ds_next 1 True (epoch_init True ex_rng ex_pair_ds))) = Inr (Some [False])"
    by code_simp
  moreover have "cur_segment_idx (snd (ds_next 1 True (epoch_init True ex_rng ex_pair_ds))) = Some 1"
    by code_simp
  moreover have "fst (ds_next 1 True (snd (ds_next 1 True (epoch_init True ex_rng ex_pair_ds))))
        = Inl ZeroDivisionError"
    by code_simp
  ultimately show ?thesis using ex_pair_constructed by simp
qed

section \<open>The constructor\<close>

lemma cinv_nth: "cinv us st \<Longrightarrow> a < length us \<Longrightarrow> uttrs st ! a = us ! a"
  unfolding cinv_def by (metis nth_take)

lemma sample_negative_Some:
  "sample_negative st pool ids tape = Some (Inr (c, tape')) \<Longrightarrow>
   c \<in> set pool \<and> are_different_uttrs ids (token_ids (uttrs st ! c)) = Inr True"
proof (induction tape)
  case Nil
  then show ?case by (simp split: if_splits)
next
  case (Cons k tape)
  show ?case
  proof (cases "pool = []")
    case True
    with Cons.prems show ?thesis by simp
  next
    case False
    then have "k mod length pool < length pool" by simp
    then have m: "pool ! (k mod length pool) \<in> set pool" by simp
    show ?thesis
      using Cons False m
      by (auto simp: Let_def split: sum.splits bool.splits)
  qed
qed

lemma visit_single:
  assumes "c < length (uttrs st)" "utterance_meta (uttrs st ! c) = c" "c < length (metas st)"
    and "reference_uttr (metas st ! c) = None \<or> reference_uttr (metas st ! c) = Some c"
  shows "visit st ([], []) c = ([c], [c])"
proof (cases "reference_uttr (metas st ! c)")
  case None
  then show ?thesis using assms by (subst visit.simps) simp
next
  case (Some r)
  with assms(4) have r: "r = c" by simp
  have "visit st ([c], [c]) c = ([c], [c])"
    by (subst visit.simps) simp
  then show ?thesis using assms Some r by (subst visit.simps) simp
qed

lemma build_segments_step:
  assumes inv: "cinv us st" and pk: "pool_ok us" and pool: "pool = [0..<length us]"
    and e: "e < length sess" and sess: "\<forall>a \<in> set sess. a < length us"
    and b: "build_segments hl pool sess e (st, segs, tape) = Some (Inr (st', segs', tape'))"
  shows "\<exists>c<length us.
      are_different_uttrs (token_ids (us ! (sess ! e))) (token_ids (us ! c)) = Inr True
      \<and> uttrs st' = uttrs st @ [(us ! c)\<lparr>utterance_meta := length (metas st), is_next := False\<rparr>]
      \<and> length (metas st') = Suc (length (metas st))
      \<and> (\<forall>m<length (metas st). m \<noteq> sess ! e \<longrightarrow> metas st' ! m = metas st ! m)
      \<and> reference_uttr (metas st' ! (sess ! e)) = Some (sess ! e)
      \<and> reference_uttr (metas st' ! length (metas st)) = Some (sess ! e)
      \<and> segs' = segs @ [py_slice sess (nat (max 0 (int e - hl))) (e + 1),
                        py_slice sess (nat (max 0 (int e - hl))) e @ [length (uttrs st)]]"
proof -
  let ?pos = "sess ! e"
  let ?N = "length us"
  have pos: "?pos < ?N" using e sess by simp
  have lu: "?N \<le> length (uttrs st)" and lm: "?N \<le> length (metas st)"
    using inv by (auto simp: cinv_def)
  have up: "uttrs st ! a = us ! a" if "a < ?N" for a using cinv_nth [OF inv that] .
  have mp: "utterance_meta (us ! a) = a" if "a < ?N" for a using pk that by (simp add: pool_ok_def)
  define st1 where "st1 = set_reference_uttr ?pos ?pos st"
  have u1: "uttrs st1 = uttrs st"
    by (simp add: st1_def set_reference_uttr_def Let_def)
  have m1: "metas st1 = (metas st)[?pos := (metas st ! ?pos)\<lparr>reference_uttr := Some ?pos\<rparr>]"
    using pos by (simp add: st1_def set_reference_uttr_def Let_def up mp)
  have b': "build_segments hl pool sess e (st, segs, tape) =
      (case sample_negative st1 pool (token_ids (uttrs st1 ! ?pos)) tape of
         None \<Rightarrow> None
       | Some (Inl x) \<Rightarrow> Some (Inl x)
       | Some (Inr (chosen, tp)) \<Rightarrow>
           Some (Inr (set_is_next (snd (deepcopy_uttr st1 chosen)) False
                        (set_reference_uttr (snd (deepcopy_uttr st1 chosen)) ?pos
                           (fst (deepcopy_uttr st1 chosen))),
                      (segs @ [py_slice sess (nat (max 0 (int e - hl))) (e + 1)])
                        @ [py_slice sess (nat (max 0 (int e - hl))) e
                             @ [snd (deepcopy_uttr st1 chosen)]], tp)))"
    by (simp add: build_segments_def st1_def Let_def split_beta
             cong: option.case_cong sum.case_cong)
  from b [unfolded b'] obtain c where
    s: "sample_negative st1 pool (token_ids (uttrs st1 ! ?pos)) tape = Some (Inr (c, tape'))"
    and r: "st' = set_is_next (snd (deepcopy_uttr st1 c)) False
                        (set_reference_uttr (snd (deepcopy_uttr st1 c)) ?pos
                           (fst (deepcopy_uttr st1 c)))"
      "segs' = (segs @ [py_slice sess (nat (max 0 (int e - hl))) (e + 1)])
                        @ [py_slice sess (nat (max 0 (int e - hl))) e
                             @ [snd (deepcopy_uttr st1 c)]]"
    by (auto split: option.splits sum.splits prod.splits)
  from sample_negative_Some [OF s] have c: "c < ?N"
    and d: "are_different_uttrs (token_ids (us ! ?pos)) (token_ids (us ! c)) = Inr True"
    using pool pos by (auto simp: u1 up)
  have rc: "reference_uttr (metas st1 ! c) = None \<or> reference_uttr (metas st1 ! c) = Some c"
  proof (cases "c = ?pos")
    case True
    then show ?thesis using pos lm by (simp add: m1)
  next
    case False
    then show ?thesis using inv c by (simp add: m1 cinv_def)
  qed
  have v: "visit st1 ([], []) c = ([c], [c])"
    by (rule visit_single) (use c lu lm rc in \<open>simp_all add: u1 up mp m1\<close>)
  define st2 where "st2 = copy_objects st1 ([c], [c])"
  have dc: "deepcopy_uttr st1 c = (st2, length (uttrs st))"
    by (simp add: deepcopy_uttr_def v st2_def u1)
  have u2: "uttrs st2 = uttrs st @ [(us ! c)\<lparr>utterance_meta := length (metas st)\<rparr>]"
    using c by (simp add: st2_def copy_objects_def u1 m1 up mp)
  have m2: "metas st2 = metas st1 @ [(metas st1 ! c)\<lparr>reference_uttr :=
       map_option (\<lambda>r. length (uttrs st) + index_of [c] r) (reference_uttr (metas st1 ! c))\<rparr>]"
    by (simp add: st2_def copy_objects_def u1)
  from r have st': "st' = set_is_next (length (uttrs st)) False
                      (set_reference_uttr (length (uttrs st)) ?pos st2)"
    and segs': "segs' = segs @ [py_slice sess (nat (max 0 (int e - hl))) (e + 1),
                        py_slice sess (nat (max 0 (int e - hl))) e @ [length (uttrs st)]]"
    by (simp_all add: dc)
  have lm1: "length (metas st1) = length (metas st)" by (simp add: m1)
  have us': "uttrs st' = uttrs st @ [(us ! c)\<lparr>utterance_meta := length (metas st), is_next := False\<rparr>]"
    by (simp add: st' set_is_next_def set_reference_uttr_def Let_def u2)
  have ms': "metas st' = metas st1 @ [(metas st1 ! c)\<lparr>reference_uttr := Some ?pos\<rparr>]"
    by (simp add: st' set_is_next_def set_reference_uttr_def Let_def u2 m2 lm1 [symmetric])
  have "length (metas st') = Suc (length (metas st))"
    by (simp add: ms' lm1)
  moreover have "\<forall>m<length (metas st). m \<noteq> ?pos \<longrightarrow> metas st' ! m = metas st ! m"
    by (simp add: ms' nth_append lm1 m1)
  moreover have "reference_uttr (metas st' ! ?pos) = Some ?pos"
    using pos lm by (simp add: ms' nth_append lm1) (simp add: m1)
  moreover have "reference_uttr (metas st' ! length (metas st)) = Some ?pos"
    using nth_append_length [of "metas st1"] by (simp add: ms' lm1)
  ultimately show ?thesis using c d us' segs' by blast
qed

lemma session_addrs_length: "length (session_addrs a data) = length data"
  by (induction data arbitrary: a) auto

lemma session_addrs_nth:
  "k < length data \<Longrightarrow>
   session_addrs a data ! k = [a + offset data k..<a + offset data k + length (data ! k)]"
proof (induction data arbitrary: a k)
  case Nil
  then show ?case by simp
next
  case (Cons s data)
  show ?case
  proof (cases k)
    case 0
    then show ?thesis by (simp add: offset_def)
  next
    case (Suc j)
    with Cons.prems have "j < length data" by simp
    from Cons.IH [OF this, of "a + length s"] show ?thesis
      using Suc by (simp add: offset_def add.assoc)
  qed
qed

lemma offset_bound:
  "k < length data \<Longrightarrow> offset data k + length (data ! k) \<le> length (concat data)"
proof (induction data arbitrary: k)
  case Nil
  then show ?case by simp
next
  case (Cons s data)
  then show ?case by (cases k) (auto simp: offset_def)
qed

lemma concat_nth_offset:
  "k < length data \<Longrightarrow> i < length (data ! k) \<Longrightarrow> concat data ! (offset data k + i) = data ! k ! i"
proof (induction data arbitrary: k)
  case Nil
  then show ?case by simp
next
  case (Cons s data)
  then show ?case by (cases k) (auto simp: offset_def nth_append)
qed

lemma concat_session_addrs:
  "concat (session_addrs a data) = [a..<a + length (concat data)]"
proof (induction data arbitrary: a)
  case Nil
  then show ?case by simp
next
  case (Cons s data)
  have "[a..<a + length s] @ [a + length s..<a + length s + length (concat data)]
        = [a..<a + length s + length (concat data)]"
    by (metis le_add1 upt_add_eq_append)
  then show ?case using Cons.IH [of "a + length s"] by (simp add: add.assoc)
qed

lemma process_uttr_Inr:
  "process_uttr cfg tok m raw = Inr u \<Longrightarrow>
   utterance_meta u = m \<and> is_next u \<and> token_ids u = raw_token_ids cfg tok raw
   \<and> uttr_text u = fst raw \<and> uttr_floor u = snd raw"
  by (auto simp: process_uttr_def raw_token_ids_def Let_def split: sum.splits)

lemma process_uttrs_Inr:
  "process_uttrs cfg tok m raws = Inr us \<Longrightarrow>
   length us = length raws \<and> (\<forall>i<length raws. process_uttr cfg tok (m + i) (raws ! i) = Inr (us ! i))"
proof (induction raws arbitrary: m us)
  case Nil
  then show ?case by simp
next
  case (Cons raw raws)
  from Cons.prems obtain u us' where
    u: "process_uttr cfg tok m raw = Inr u" and us': "process_uttrs cfg tok (Suc m) raws = Inr us'"
    and eq: "us = u # us'"
    by (auto split: sum.splits)
  from Cons.IH [OF us'] show ?case
    using u eq by (auto simp: nth_Cons split: nat.splits)
qed

lemma concat_map_concat:
  "concat (map f (concat xss)) = concat (map (\<lambda>xs. concat (map f xs)) xss)"
  by (induction xss) auto

lemma tags_of_pairs:
  "tags_of (concat (map (\<lambda>k. map (Pair k) (g k)) ks)) =
   concat (map (\<lambda>k. concat (map (\<lambda>e. [(k, e, True), (k, e, False)]) (g k))) ks)"
  by (simp add: tags_of_def concat_map_concat comp_def)

lemma tags_of_append: "tags_of (ps @ [p]) = tags_of ps @ [(fst p, snd p, True), (fst p, snd p, False)]"
  by (simp add: tags_of_def)

lemma cinv_step:
  assumes inv: "cinv us st" and pos: "pos < length us" and c: "c < length us"
    and u: "uttrs st' = uttrs st @ [(us ! c)\<lparr>utterance_meta := length (metas st), is_next := False\<rparr>]"
    and l: "length (metas st') = Suc (length (metas st))"
    and m: "\<forall>m<length (metas st). m \<noteq> pos \<longrightarrow> metas st' ! m = metas st ! m"
    and rp: "reference_uttr (metas st' ! pos) = Some pos"
    and rn: "reference_uttr (metas st' ! length (metas st)) = Some pos"
  shows "cinv us st'"
proof -
  have lu: "length us \<le> length (uttrs st)" and lm: "length us \<le> length (metas st)"
    and tk: "take (length us) (uttrs st) = us"
    using inv by (auto simp: cinv_def)
  have 1: "take (length us) (uttrs st') = us" using lu tk by (simp add: u)
  have 2: "reference_uttr (metas st' ! a) = None \<or> reference_uttr (metas st' ! a) = Some a"
    if "a < length us" for a
  proof (cases "a = pos")
    case True
    then show ?thesis using rp by simp
  next
    case False
    then have "metas st' ! a = metas st ! a" using m that lm by simp
    then show ?thesis using inv that by (simp add: cinv_def)
  qed
  have 3: "length us \<le> utterance_meta (uttrs st' ! a) \<and> utterance_meta (uttrs st' ! a) < length (metas st')"
    if "length us \<le> a" "a < length (uttrs st')" for a
  proof (cases "a < length (uttrs st)")
    case True
    then show ?thesis using inv that l by (auto simp: u nth_append cinv_def)
  next
    case False
    then have "a = length (uttrs st)" using that by (simp add: u)
    then show ?thesis using lm l by (simp add: u)
  qed
  have 4: "\<exists>r<length us. reference_uttr (metas st' ! k) = Some r"
    if "length us \<le> k" "k < length (metas st')" for k
  proof (cases "k < length (metas st)")
    case True
    then have "metas st' ! k = metas st ! k" using m that pos by simp
    then show ?thesis using inv that True by (simp add: cinv_def)
  next
    case False
    then have "k = length (metas st)" using that l by simp
    then show ?thesis using rn pos by simp
  qed
  show ?thesis
    unfolding cinv_def using lu lm l 1 2 3 4 by (simp add: u)
qed

lemma seg_ok_step:
  assumes inv: "cinv us st" and pos: "pos < length us"
    and u: "uttrs st' = uttrs st @ [x]"
    and l: "length (metas st') = Suc (length (metas st))"
    and m: "\<forall>m<length (metas st). m \<noteq> pos \<longrightarrow> metas st' ! m = metas st ! m"
    and rp: "reference_uttr (metas st' ! pos) = Some pos"
    and ok: "seg_ok us hl sessions st seg tag"
  shows "seg_ok us hl sessions st' seg tag"
proof -
  let ?sess = "sessions ! fst tag"
  let ?e = "fst (snd tag)"
  let ?start = "nat (max 0 (int ?e - hl))"
  have lm: "length us \<le> length (metas st)" using inv by (simp add: cinv_def)
  have keep: "reference_uttr (metas st' ! k) = Some r"
    if "k < length (metas st)" "reference_uttr (metas st ! k) = Some r" for k r
  proof (cases "k = pos")
    case True
    with that inv pos have "r = pos" by (auto simp: cinv_def)
    then show ?thesis using rp True by simp
  next
    case False
    then show ?thesis using m that by simp
  qed
  from ok have p: "?sess ! ?e < length us"
    and r: "reference_uttr (metas st ! (?sess ! ?e)) = Some (?sess ! ?e)"
    by (simp_all add: seg_ok_def Let_def)
  have r': "reference_uttr (metas st' ! (?sess ! ?e)) = Some (?sess ! ?e)"
    using keep [OF _ r] p lm by simp
  show ?thesis
  proof (cases "snd (snd tag)")
    case True
    with ok have "seg = py_slice ?sess ?start (Suc ?e)" by (simp add: seg_ok_def Let_def)
    with True p r' show ?thesis by (simp add: seg_ok_def Let_def)
  next
    case False
    with ok obtain n c k where
      n: "seg = py_slice ?sess ?start ?e @ [n]" "length us \<le> n" "n < length (uttrs st)"
        "c < length us" "uttrs st ! n = (us ! c)\<lparr>utterance_meta := k, is_next := False\<rparr>"
        "length us \<le> k" "k < length (metas st)"
        "reference_uttr (metas st ! k) = Some (?sess ! ?e)"
        "are_different_uttrs (token_ids (us ! (?sess ! ?e))) (token_ids (us ! c)) = Inr True"
      unfolding seg_ok_def Let_def by auto
    have "uttrs st' ! n = (us ! c)\<lparr>utterance_meta := k, is_next := False\<rparr>"
      using n(3,5) by (simp add: u nth_append)
    moreover have "reference_uttr (metas st' ! k) = Some (?sess ! ?e)"
      using keep [OF n(7,8)] .
    moreover have "n < length (uttrs st')" "k < length (metas st')"
      using n(3,7) l by (simp_all add: u)
    ultimately show ?thesis
      unfolding seg_ok_def Let_def using False p r' n(1,2,4,6,9) by auto
  qed
qed

lemma list_all2_snoc2:
  "list_all2 P xs ys \<Longrightarrow> P a c \<Longrightarrow> P b d \<Longrightarrow> list_all2 P (xs @ [a, b]) (ys @ [c, d])"
  by (simp add: list_all2_appendI)

lemma loop_step:
  assumes inv: "cinv us st" and pk: "pool_ok us" and pool: "pool = [0..<length us]"
    and e: "e < length (sessions ! k)" and sess: "\<forall>a \<in> set (sessions ! k). a < length us"
    and b: "build_segments hl pool (sessions ! k) e (st, segs, tape) = Some (Inr (st', segs', tape'))"
    and ok: "list_all2 (seg_ok us hl sessions st) segs tags"
  shows "cinv us st' \<and> list_all2 (seg_ok us hl sessions st') segs' (tags @ [(k, e, True), (k, e, False)])"
proof -
  let ?sess = "sessions ! k"
  let ?pos = "?sess ! e"
  let ?start = "nat (max 0 (int e - hl))"
  have pos: "?pos < length us" using e sess by simp
  from build_segments_step [OF inv pk pool e sess b] obtain c where
    c: "c < length us"
    and d: "are_different_uttrs (token_ids (us ! ?pos)) (token_ids (us ! c)) = Inr True"
    and u: "uttrs st' = uttrs st @ [(us ! c)\<lparr>utterance_meta := length (metas st), is_next := False\<rparr>]"
    and l: "length (metas st') = Suc (length (metas st))"
    and m: "\<forall>m<length (metas st). m \<noteq> ?pos \<longrightarrow> metas st' ! m = metas st ! m"
    and rp: "reference_uttr (metas st' ! ?pos) = Some ?pos"
    and rn: "reference_uttr (metas st' ! length (metas st)) = Some ?pos"
    and s: "segs' = segs @ [py_slice ?sess ?start (e + 1), py_slice ?sess ?start e @ [length (uttrs st)]]"
    by blast
  have lu: "length us \<le> length (uttrs st)" using inv by (simp add: cinv_def)
  have i': "cinv us st'" by (rule cinv_step [OF inv pos c u l m rp rn])
  have old: "list_all2 (seg_ok us hl sessions st') segs tags"
    using ok by (rule list_all2_mono) (rule seg_ok_step [OF inv pos u l m rp])
  have p: "seg_ok us hl sessions st' (py_slice ?sess ?start (e + 1)) (k, e, True)"
    using pos rp by (simp add: seg_ok_def)
  have "uttrs st' ! length (uttrs st)
          = (us ! c)\<lparr>utterance_meta := length (metas st), is_next := False\<rparr>"
    by (simp add: u)
  moreover have "length (uttrs st) < length (uttrs st')" "length (metas st) < length (metas st')"
    by (simp_all add: u l)
  moreover have "length us \<le> length (metas st)" using inv by (simp add: cinv_def)
  ultimately have n: "seg_ok us hl sessions st' (py_slice ?sess ?start e @ [length (uttrs st)]) (k, e, False)"
    unfolding seg_ok_def Let_def using pos rp rn lu c d by auto
  show ?thesis using i' list_all2_snoc2 [OF old p n] s by simp
qed

lemma pairs_loop:
  assumes pk: "pool_ok us" and pool: "pool = [0..<length us]"
    and ps: "\<forall>p \<in> set ps. snd p < length (sessions ! fst p) \<and> (\<forall>a \<in> set (sessions ! fst p). a < length us)"
    and f: "for_each (\<lambda>p. build_segments hl pool (sessions ! fst p) (snd p)) ps (st0, [], tape)
              = Some (Inr s)"
    and i0: "cinv us st0"
  shows "cinv us (fst s) \<and> list_all2 (seg_ok us hl sessions (fst s)) (fst (snd s)) (tags_of ps)"
proof -
  let ?P = "\<lambda>pre t. cinv us (fst t) \<and> list_all2 (seg_ok us hl sessions (fst t)) (fst (snd t)) (tags_of pre)"
  have "?P ([] @ ps) s"
  proof (rule for_each_invariant [OF f, where P = ?P])
    show "?P [] (st0, [], tape)" using i0 by (simp add: tags_of_def)
  next
    fix pre x t t'
    assume P: "?P pre t" and x: "x \<in> set ps"
      and b: "build_segments hl pool (sessions ! fst x) (snd x) t = Some (Inr t')"
    obtain st segs tp where t: "t = (st, segs, tp)" by (cases t) auto
    obtain st' segs' tp' where t': "t' = (st', segs', tp')" by (cases t') auto
    from loop_step [OF _ pk pool _ _ b [unfolded t t'], of "tags_of pre"] P ps x
    show "?P (pre @ [x]) t'"
      by (simp add: t t' tags_of_append)
  qed
  then show ?thesis by simp
qed

lemma for_each_sessions:
  "for_each (\<lambda>sess. for_each (f sess) [1..<length sess]) sessions s =
   for_each (\<lambda>p. f (sessions ! fst p) (snd p))
     (concat (map (\<lambda>k. map (Pair k) [1..<length (sessions ! k)]) [0..<length sessions])) s"
proof -
  have "for_each (\<lambda>sess. for_each (f sess) [1..<length sess]) sessions s =
        for_each (\<lambda>sess. for_each (f sess) [1..<length sess])
          (map (\<lambda>k. sessions ! k) [0..<length sessions]) s"
    by (simp add: map_nth)
  also have "\<dots> = for_each (\<lambda>k. for_each (f (sessions ! k)) [1..<length (sessions ! k)])
          [0..<length sessions] s"
    by (rule for_each_map)
  also have "\<dots> = for_each (\<lambda>p. f (sessions ! fst p) (snd p))
     (concat (map (\<lambda>k. map (Pair k) [1..<length (sessions ! k)]) [0..<length sessions])) s"
    by (rule for_each_nested [where f = "\<lambda>k. f (sessions ! k)"])
  finally show ?thesis .
qed

lemma segment_tags_sessions:
  "tags_of (concat (map (\<lambda>k. map (Pair k) [1..<length (session_addrs a data ! k)])
                [0..<length (session_addrs a data)])) = segment_tags data"
proof -
  have "map (\<lambda>k. concat (map (\<lambda>e. [(k, e, True), (k, e, False)])
                 [1..<length (session_addrs a data ! k)])) [0..<length data]
      = map (\<lambda>k. concat (map (\<lambda>e. [(k, e, True), (k, e, False)])
                 [1..<length (data ! k)])) [0..<length data]"
    by (rule map_cong) (simp_all add: session_addrs_nth)
  then show ?thesis
    unfolding tags_of_pairs segment_tags_def session_addrs_length by (rule arg_cong)
qed

lemma construction:
  assumes "DataSourceUnsupervised data cfg tok tape = Some (Inr ds)"
  shows "\<exists>us. process_uttrs cfg tok 0 (concat data) = Inr us \<and> pool_ok us
     \<and> cinv us (heap ds) \<and> utterance_pool ds = [0..<length us]
     \<and> list_all2 (seg_ok us (history_len cfg) (session_addrs 0 data) (heap ds))
          (priv_segments ds) (segment_tags data)
     \<and> history_len ds = history_len cfg \<and> tokenizer ds = tok
     \<and> n_segments (statistics ds) = length (priv_segments ds)"
proof -
  let ?sessions = "session_addrs 0 data"
  let ?ps = "concat (map (\<lambda>k. map (Pair k) [1..<length (?sessions ! k)]) [0..<length ?sessions])"
  from assms obtain us where us: "process_uttrs cfg tok 0 (concat data) = Inr us"
    by (auto simp: DataSourceUnsupervised_def split: sum.splits)
  define st0 where "st0 = \<lparr>uttrs = us, metas = replicate (length us) \<lparr>reference_uttr = None\<rparr>\<rparr>"
  define pool where "pool = concat ?sessions"
  from assms us obtain s where
    f: "for_each (\<lambda>sess. for_each (build_segments (history_len cfg) pool sess) [1..<length sess])
          ?sessions (st0, [], tape) = Some (Inr s)"
    and h: "heap ds = fst s" and sg: "priv_segments ds = fst (snd s)"
    and up: "utterance_pool ds = pool"
    and o: "history_len ds = history_len cfg" "tokenizer ds = tok"
       "n_segments (statistics ds) = length (priv_segments ds)"
    by (auto simp: DataSourceUnsupervised_def Let_def st0_def pool_def
             split: option.splits sum.splits)
  from process_uttrs_Inr [OF us] have len: "length us = length (concat data)"
    and pu: "\<forall>i<length (concat data). process_uttr cfg tok i (concat data ! i) = Inr (us ! i)"
    by auto
  have pk: "pool_ok us"
    unfolding pool_ok_def using pu len process_uttr_Inr by metis
  have pool: "pool = [0..<length us]"
    by (simp add: pool_def concat_session_addrs len)
  have i0: "cinv us st0"
    by (simp add: cinv_def st0_def)
  have ps: "\<forall>p \<in> set ?ps. snd p < length (?sessions ! fst p)
              \<and> (\<forall>a \<in> set (?sessions ! fst p). a < length us)"
  proof
    fix p assume "p \<in> set ?ps"
    then have k: "fst p < length data" and e: "snd p < length (?sessions ! fst p)"
      by (auto simp: session_addrs_length)
    have "\<forall>a \<in> set (?sessions ! fst p). a < length us"
      using offset_bound [OF k] by (auto simp: session_addrs_nth [OF k] len)
    with e show "snd p < length (?sessions ! fst p) \<and> (\<forall>a \<in> set (?sessions ! fst p). a < length us)"
      by simp
  qed
  from f have f': "for_each (\<lambda>p. build_segments (history_len cfg) pool (?sessions ! fst p) (snd p))
       ?ps (st0, [], tape) = Some (Inr s)"
    by (simp only: for_each_sessions)
  from pairs_loop [OF pk pool ps f' i0]
  have "cinv us (fst s) \<and> list_all2 (seg_ok us (history_len cfg) ?sessions (fst s)) (fst (snd s))
          (segment_tags data)"
    by (simp only: segment_tags_sessions)
  then show ?thesis using us pk pool h sg up o by auto
qed

section \<open>Segments of the constructor\<close>

lemma segment_tags_mem:
  "t \<in> set (segment_tags data) \<Longrightarrow>
   fst t < length data \<and> 1 \<le> fst (snd t) \<and> fst (snd t) < length (data ! fst t)"
  by (auto simp: segment_tags_def)

lemma segment_tags_map:
  "segment_tags data =
   concat (map (\<lambda>k. concat (map (\<lambda>e. [(k, e, True), (k, e, False)]) [1..<length (data ! k)]))
              [0..<length data])"
  by (simp add: segment_tags_def)

lemma length_concat_pairs: "length (concat (map (\<lambda>e. [f e, g e]) es)) = 2 * length es"
  by (induction es) auto

lemma length_segment_tags:
  "length (segment_tags data) = (\<Sum>sess\<leftarrow>data. 2 * (length sess - 1))"
proof -
  have "length (segment_tags data)
      = sum_list (map (\<lambda>k. length (concat (map (\<lambda>e. [(k, e, True), (k, e, False)])
                                   [1..<length (data ! k)]))) [0..<length data])"
    unfolding segment_tags_def length_concat map_map comp_def ..
  also have "\<dots> = sum_list (map (\<lambda>k. 2 * (length (data ! k) - 1)) [0..<length data])"
    unfolding length_concat_pairs by simp
  also have "\<dots> = sum_list (map (\<lambda>sess. 2 * (length sess - 1)) (map (\<lambda>k. data ! k) [0..<length data]))"
    unfolding map_map comp_def ..
  finally show ?thesis by (simp only: map_nth)
qed

lemma construction_length:
  "DataSourceUnsupervised data cfg tok tape = Some (Inr ds) \<Longrightarrow>
   length (priv_segments ds) = length (segment_tags data)"
  using construction by (metis list_all2_lengthD)

lemma build_segments_length:
  "build_segments hl pool sess e s = Some (Inr s') \<Longrightarrow>
   length (fst (snd s')) = length (fst (snd s)) + 2"
  by (auto simp: build_segments_def Let_def split: option.splits sum.splits prod.splits)

lemma session_loop_length:
  assumes "for_each (build_segments hl pool sess) es s = Some (Inr s')"
  shows "length (fst (snd s')) = length (fst (snd s)) + 2 * length es"
proof -
  let ?P = "\<lambda>pre t. length (fst (snd t)) = length (fst (snd s)) + 2 * length pre"
  have "?P ([] @ es) s'"
    by (rule for_each_invariant [OF assms, where P = ?P])
       (auto dest: build_segments_length)
  then show ?thesis by simp
qed

lemma construction_nth:
  assumes c: "DataSourceUnsupervised data cfg tok tape = Some (Inr ds)"
    and i: "i < length (priv_segments ds)"
  obtains us k e p where
    "process_uttrs cfg tok 0 (concat data) = Inr us" "length us = length (concat data)"
    "pool_ok us" "cinv us (heap ds)" "utterance_pool ds = [0..<length us]"
    "segment_tags data ! i = (k, e, p)" "k < length data" "1 \<le> e" "e < length (data ! k)"
    "seg_ok us (history_len cfg) (session_addrs 0 data) (heap ds) (priv_segments ds ! i) (k, e, p)"
proof -
  from construction [OF c] obtain us where
    us: "process_uttrs cfg tok 0 (concat data) = Inr us" "pool_ok us" "cinv us (heap ds)"
      "utterance_pool ds = [0..<length us]"
    and l: "list_all2 (seg_ok us (history_len cfg) (session_addrs 0 data) (heap ds))
          (priv_segments ds) (segment_tags data)"
    by blast
  obtain k e p where t: "segment_tags data ! i = (k, e, p)"
    by (cases "segment_tags data ! i") auto
  have "segment_tags data ! i \<in> set (segment_tags data)"
    using i list_all2_lengthD [OF l] by simp
  from segment_tags_mem [OF this] have b: "k < length data" "1 \<le> e" "e < length (data ! k)"
    by (simp_all add: t)
  have "seg_ok us (history_len cfg) (session_addrs 0 data) (heap ds) (priv_segments ds ! i) (k, e, p)"
    using list_all2_nthD [OF l i] by (simp add: t)
  with us t b process_uttrs_Inr [OF us(1)] show thesis
    by (intro that [of us k e p]) simp_all
qed

lemma session_nth:
  "k < length data \<Longrightarrow> e < length (data ! k) \<Longrightarrow>
   session_addrs 0 data ! k ! e = offset data k + e
   \<and> length (session_addrs 0 data ! k) = length (data ! k)
   \<and> offset data k + e < length (concat data)
   \<and> concat data ! (offset data k + e) = data ! k ! e"
  using offset_bound [of k data] by (simp add: session_addrs_nth concat_nth_offset)

lemma pool_token_ids:
  assumes "process_uttrs cfg tok 0 (concat data) = Inr us" "k < length data" "e < length (data ! k)"
  shows "token_ids (us ! (session_addrs 0 data ! k ! e)) = raw_token_ids cfg tok (data ! k ! e)"
proof -
  from session_nth [OF assms(2,3)] have a: "session_addrs 0 data ! k ! e = offset data k + e"
    "offset data k + e < length (concat data)" "concat data ! (offset data k + e) = data ! k ! e"
    by simp_all
  from process_uttrs_Inr [OF assms(1)] a(2)
  have "process_uttr cfg tok (offset data k + e) (concat data ! (offset data k + e))
          = Inr (us ! (offset data k + e))" by simp
  from process_uttr_Inr [OF this] show ?thesis by (simp add: a)
qed

text \<open>
  Claim C1. In the segment list of a finished data source, every negative segment (a
  segment at a negative tag of the construction order) ends in an utterance with
  \<^verbatim>\<open>is_next\<close> false whose \<^verbatim>\<open>reference_uttr\<close> is the true positive \<open>u[end]\<close> of its
  session, and the coverage of the positive's and the negative's token ids is strictly
  below \<open>0.8\<close>. \<^verbatim>\<open>_are_different_uttrs\<close> accepts a candidate exactly when both id sets
  are non-empty and the coverage is below \<open>0.8\<close>.
\<close>

theorem negatives_below_threshold:
  assumes "DataSourceUnsupervised data cfg tok tape = Some (Inr ds)"
  shows "(\<forall>i<length (priv_segments ds).
            case segment_tags data ! i of (k, e, positive) \<Rightarrow>
              \<not> positive \<longrightarrow>
              (let seg = priv_segments ds ! i;
                   pos = session_addrs 0 data ! k ! e;
                   pos_ids = token_ids (uttrs (heap ds) ! pos);
                   neg_ids = token_ids (uttrs (heap ds) ! last seg)
               in seg \<noteq> [] \<and> \<not> is_next (uttrs (heap ds) ! last seg)
                  \<and> ref_of (heap ds) (last seg) = Some pos
                  \<and> pos_ids = raw_token_ids cfg tok (data ! k ! e)
                  \<and> set pos_ids \<noteq> {} \<and> set neg_ids \<noteq> {}
                  \<and> coverage_score pos_ids neg_ids < 8 / 10
                  \<and> coverage_score pos_ids neg_ids
                      = (of_nat (card (set pos_ids \<inter> set neg_ids)) / of_nat (card (set pos_ids))
                         + of_nat (card (set pos_ids \<inter> set neg_ids)) / of_nat (card (set neg_ids))) / 2))
     \<and> (\<forall>a b. are_different_uttrs a b = Inr True
              \<longleftrightarrow> set a \<noteq> {} \<and> set b \<noteq> {} \<and> coverage_score a b < 8 / 10)"
proof -
  have "case segment_tags data ! i of (k, e, positive) \<Rightarrow>
              \<not> positive \<longrightarrow>
              (let seg = priv_segments ds ! i;
                   pos = session_addrs 0 data ! k ! e;
                   pos_ids = token_ids (uttrs (heap ds) ! pos);
                   neg_ids = token_ids (uttrs (heap ds) ! last seg)
               in seg \<noteq> [] \<and> \<not> is_next (uttrs (heap ds) ! last seg)
                  \<and> ref_of (heap ds) (last seg) = Some pos
                  \<and> pos_ids = raw_token_ids cfg tok (data ! k ! e)
                  \<and> set pos_ids \<noteq> {} \<and> set neg_ids \<noteq> {}
                  \<and> coverage_score pos_ids neg_ids < 8 / 10
                  \<and> coverage_score pos_ids neg_ids
                      = (of_nat (card (set pos_ids \<inter> set neg_ids)) / of_nat (card (set pos_ids))
                         + of_nat (card (set pos_ids \<inter> set neg_ids)) / of_nat (card (set neg_ids))) / 2)"
    if i: "i < length (priv_segments ds)" for i
  proof (rule construction_nth [OF assms i])
    fix us k e p
    assume us: "process_uttrs cfg tok 0 (concat data) = Inr us" and inv: "cinv us (heap ds)"
      and t: "segment_tags data ! i = (k, e, p)" and k: "k < length data" and e: "e < length (data ! k)"
      and ok: "seg_ok us (history_len cfg) (session_addrs 0 data) (heap ds) (priv_segments ds ! i) (k, e, p)"
    let ?pos = "session_addrs 0 data ! k ! e"
    let ?seg = "priv_segments ds ! i"
    show ?thesis
    proof (cases p)
      case True
      then show ?thesis by (simp add: t)
    next
      case False
      with ok obtain n c m where
        pos: "?pos < length us" and seg: "?seg = py_slice (session_addrs 0 data ! k)
                 (nat (max 0 (int e - history_len cfg))) e @ [n]"
        and u: "uttrs (heap ds) ! n = (us ! c)\<lparr>utterance_meta := m, is_next := False\<rparr>"
        and r: "reference_uttr (metas (heap ds) ! m) = Some ?pos"
        and d: "are_different_uttrs (token_ids (us ! ?pos)) (token_ids (us ! c)) = Inr True"
        unfolding seg_ok_def Let_def by auto
      have ls: "last ?seg = n" and ne: "?seg \<noteq> []" by (simp_all add: seg)
      have pi: "token_ids (uttrs (heap ds) ! ?pos) = token_ids (us ! ?pos)"
        using cinv_nth [OF inv pos] by simp
      have ni: "token_ids (uttrs (heap ds) ! last ?seg) = token_ids (us ! c)"
        and nn: "\<not> is_next (uttrs (heap ds) ! last ?seg)"
        and rf: "ref_of (heap ds) (last ?seg) = Some ?pos"
        using r by (simp_all add: ls u ref_of_def)
      from d have cv: "set (token_ids (us ! ?pos)) \<noteq> {}" "set (token_ids (us ! c)) \<noteq> {}"
          "coverage_score (token_ids (us ! ?pos)) (token_ids (us ! c)) < 8 / 10"
        by (simp_all add: are_different_uttrs_True_iff)
      have cs: "coverage_score a b
                      = (of_nat (card (set a \<inter> set b)) / of_nat (card (set a))
                         + of_nat (card (set a \<inter> set b)) / of_nat (card (set b))) / 2" for a b
        by (simp add: coverage_score_def Let_def)
      show ?thesis
        unfolding t prod.case Let_def pi ni
        using ne nn rf pool_token_ids [OF us k e] cv cs by blast
    qed
  qed
  then show ?thesis using are_different_uttrs_True_iff by blast
qed

theorem negatives_below_threshold_witness:
  "segment_tags ex_data ! 1 = (0, 1, False)
   \<and> priv_segments ex_ds ! 1 = [0, 3]
   \<and> \<not> is_next (uttrs (heap ex_ds) ! 3)
   \<and> ref_of (heap ex_ds) 3 = Some 1
   \<and> token_ids (uttrs (heap ex_ds) ! 1) = [1, 15, 15, 2]
   \<and> token_ids (uttrs (heap ex_ds) ! 3) = [1, 12, 2]
   \<and> coverage_score (token_ids (uttrs (heap ex_ds) ! 1)) (token_ids (uttrs (heap ex_ds) ! 3)) < 8 / 10"
proof -
  have a: "(1::nat) < length (priv_segments ex_ds)" by code_simp
  have b: "segment_tags ex_data ! 1 = (0, 1, False)" by code_simp
  have c: "priv_segments ex_ds ! 1 = [0, 3]" by code_simp
  have d: "session_addrs 0 ex_data ! 0 ! 1 = 1" by code_simp
  have e: "token_ids (uttrs (heap ex_ds) ! 1) = [1, 15, 15, 2]" by code_simp
  have f: "token_ids (uttrs (heap ex_ds) ! 3) = [1, 12, 2]" by code_simp
  have l: "last [0, 3 :: nat] = 3" by simp
  note all = negatives_below_threshold [OF ex_constructed, THEN conjunct1, rule_format, OF a]
  from all have "\<not> is_next (uttrs (heap ex_ds) ! 3) \<and> ref_of (heap ex_ds) 3 = Some 1
     \<and> coverage_score (token_ids (uttrs (heap ex_ds) ! 1)) (token_ids (uttrs (heap ex_ds) ! 3)) < 8 / 10"
    unfolding b prod.case Let_def c d l by blast
  with b c e f show ?thesis by simp
qed

lemma py_slice_map: "j \<le> length xs \<Longrightarrow> py_slice xs i j = map (\<lambda>n. xs ! n) [i..<j]"
  unfolding py_slice_def by (rule nth_equalityI) simp_all

lemma py_slice_Suc:
  "e < length xs \<Longrightarrow> i \<le> e \<Longrightarrow> py_slice xs i (Suc e) = py_slice xs i e @ [xs ! e]"
  by (simp add: py_slice_map)

lemma ref_of_pool:
  "cinv us st \<Longrightarrow> pool_ok us \<Longrightarrow> a < length us \<Longrightarrow> ref_of st a = reference_uttr (metas st ! a)"
  by (simp add: ref_of_def cinv_nth pool_ok_def)

lemma segment_at:
  assumes "DataSourceUnsupervised data cfg tok tape = Some (Inr ds)"
    and "1 \<le> history_len cfg" and "i < length (priv_segments ds)"
  shows "case segment_tags data ! i of (k, e, positive) \<Rightarrow>
     (let seg = priv_segments ds ! i; sess = session_addrs 0 data ! k
      in k < length data \<and> length sess = length (data ! k) \<and> 1 \<le> e \<and> e < length sess
         \<and> 2 \<le> length seg \<and> int (length seg) \<le> history_len cfg + 1
         \<and> butlast seg = map (\<lambda>j. sess ! j) [nat (max 0 (int e - history_len cfg))..<e]
         \<and> ref_of (heap ds) (last seg) = Some (sess ! e)
         \<and> (if positive then last seg = sess ! e \<and> is_next (uttrs (heap ds) ! last seg)
            else last seg \<notin> set (utterance_pool ds) \<and> \<not> is_next (uttrs (heap ds) ! last seg)))"
proof (rule construction_nth [OF assms(1,3)])
  fix us k e p
  assume pk: "pool_ok us" and inv: "cinv us (heap ds)"
    and pool: "utterance_pool ds = [0..<length us]"
    and t: "segment_tags data ! i = (k, e, p)" and k: "k < length data"
    and e1: "1 \<le> e" and e: "e < length (data ! k)"
    and ok: "seg_ok us (history_len cfg) (session_addrs 0 data) (heap ds) (priv_segments ds ! i) (k, e, p)"
  let ?sess = "session_addrs 0 data ! k"
  let ?seg = "priv_segments ds ! i"
  let ?start = "nat (max 0 (int e - history_len cfg))"
  let ?ctx = "map (\<lambda>j. ?sess ! j) [?start..<e]"
  have ls: "length ?sess = length (data ! k)" using session_nth [OF k e] by simp
  have se: "?start \<le> e" using assms(2) by simp
  have lc: "1 \<le> length ?ctx" "int (length ?ctx) \<le> history_len cfg"
    using assms(2) e1 by auto
  have sl: "py_slice ?sess ?start e = ?ctx"
    using e ls by (simp add: py_slice_map)
  from ok have pos: "?sess ! e < length us"
    and rp: "reference_uttr (metas (heap ds) ! (?sess ! e)) = Some (?sess ! e)"
    by (simp_all add: seg_ok_def Let_def)
  have shape: "2 \<le> length ?seg \<and> int (length ?seg) \<le> history_len cfg + 1
         \<and> butlast ?seg = ?ctx \<and> ref_of (heap ds) (last ?seg) = Some (?sess ! e)
         \<and> (if p then last ?seg = ?sess ! e \<and> is_next (uttrs (heap ds) ! last ?seg)
            else last ?seg \<notin> set (utterance_pool ds) \<and> \<not> is_next (uttrs (heap ds) ! last ?seg))"
  proof (cases p)
    case True
    with ok have "?seg = py_slice ?sess ?start (Suc e)" by (simp add: seg_ok_def Let_def)
    then have seg: "?seg = ?ctx @ [?sess ! e]"
      using py_slice_Suc [of e ?sess ?start] e ls se sl by simp
    have "is_next (uttrs (heap ds) ! (?sess ! e))"
      using cinv_nth [OF inv pos] pk pos by (simp add: pool_ok_def)
    moreover have "ref_of (heap ds) (?sess ! e) = Some (?sess ! e)"
      using ref_of_pool [OF inv pk pos] rp by simp
    moreover have "last ?seg = ?sess ! e" "butlast ?seg = ?ctx" "length ?seg = length ?ctx + 1"
      by (simp_all add: seg)
    ultimately show ?thesis using True lc by simp
  next
    case False
    with ok obtain n c m where
      seg0: "?seg = py_slice ?sess ?start e @ [n]" and n: "length us \<le> n"
      and u: "uttrs (heap ds) ! n = (us ! c)\<lparr>utterance_meta := m, is_next := False\<rparr>"
      and r: "reference_uttr (metas (heap ds) ! m) = Some (?sess ! e)"
      unfolding seg_ok_def Let_def by auto
    have seg: "?seg = ?ctx @ [n]" using seg0 sl by simp
    have "last ?seg = n" "butlast ?seg = ?ctx" "length ?seg = length ?ctx + 1"
      by (simp_all add: seg)
    moreover have "n \<notin> set (utterance_pool ds)" using n by (simp add: pool)
    moreover have "\<not> is_next (uttrs (heap ds) ! n)" "ref_of (heap ds) n = Some (?sess ! e)"
      using r by (simp_all add: u ref_of_def)
    ultimately show ?thesis using False lc by simp
  qed
  have es: "e < length ?sess" using e ls by simp
  show ?thesis
    unfolding t prod.case Let_def using k ls e1 es shape by blast
qed

text \<open>
  Claim C3, for \<open>history_len \<ge> 1\<close> (the configuration the specification declares). The
  segment at position \<open>i\<close> of the segment list belongs to the tag \<open>(k, e, positive)\<close> at
  position \<open>i\<close> of the construction order: it has between \<open>2\<close> and \<open>history_len + 1\<close>
  utterances; all but the last are the utterances of session \<open>k\<close> from index
  \<open>max 0 (e - history_len)\<close> to \<open>e - 1\<close>, in order; the \<^verbatim>\<open>reference_uttr\<close> of the last is
  the true next utterance \<open>u[e]\<close> of the session; and the last is \<open>u[e]\<close> itself with
  \<^verbatim>\<open>is_next\<close> true, or an utterance outside the pool with \<^verbatim>\<open>is_next\<close> false.
\<close>

theorem segment_shape:
  assumes "DataSourceUnsupervised data cfg tok tape = Some (Inr ds)"
    and "1 \<le> history_len cfg" and "i < length (priv_segments ds)"
  shows "case segment_tags data ! i of (k, e, positive) \<Rightarrow>
     (let seg = priv_segments ds ! i; sess = session_addrs 0 data ! k
      in k < length data \<and> length sess = length (data ! k) \<and> 1 \<le> e \<and> e < length sess
         \<and> 2 \<le> length seg \<and> int (length seg) \<le> history_len cfg + 1
         \<and> butlast seg = map (\<lambda>j. sess ! j) [nat (max 0 (int e - history_len cfg))..<e]
         \<and> ref_of (heap ds) (last seg) = Some (sess ! e)
         \<and> (if positive then last seg = sess ! e \<and> is_next (uttrs (heap ds) ! last seg)
            else last seg \<notin> set (utterance_pool ds) \<and> \<not> is_next (uttrs (heap ds) ! last seg)))"
  using assms by (rule segment_at)

theorem segment_shape_witness:
  "segment_tags ex_data ! 3 = (0, 2, False)
   \<and> priv_segments ex_ds ! 3 = [0, 1, 4]
   \<and> session_addrs 0 ex_data ! 0 = [0, 1, 2]
   \<and> history_len ex_config = 5
   \<and> ref_of (heap ex_ds) 4 = Some 2
   \<and> 4 \<notin> set (utterance_pool ex_ds)
   \<and> \<not> is_next (uttrs (heap ex_ds) ! 4)"
proof -
  have a: "(3::nat) < length (priv_segments ex_ds)" by code_simp
  have b: "segment_tags ex_data ! 3 = (0, 2, False)" by code_simp
  have c: "priv_segments ex_ds ! 3 = [0, 1, 4]" by code_simp
  have d: "session_addrs 0 ex_data ! 0 = [0, 1, 2]" by code_simp
  have h: "history_len ex_config = 5" by (simp add: ex_config_def)
  have "ref_of (heap ex_ds) 4 = Some 2
     \<and> 4 \<notin> set (utterance_pool ex_ds) \<and> \<not> is_next (uttrs (heap ex_ds) ! 4)"
    using segment_shape [OF ex_constructed _ a] unfolding b c d h prod.case Let_def by simp
  with b c d h show ?thesis by simp
qed

text \<open>
  Claim C8. In a finished data source every pool utterance is exactly what the
  tokenization pass wrote for its input utterance (so \<^verbatim>\<open>is_next\<close> is still true), and
  its \<^verbatim>\<open>reference_uttr\<close> is absent or points to itself. The target of every negative
  segment lies outside the pool, owns an \<^verbatim>\<open>utterance_meta\<close> that no pool utterance
  owns, has \<^verbatim>\<open>is_next\<close> false, and agrees in every other key with a pool utterance
  which is not the positive of the segment.
\<close>

theorem negative_is_independent_copy:
  assumes "DataSourceUnsupervised data cfg tok tape = Some (Inr ds)"
  shows "utterance_pool ds = [0..<length (concat data)]
     \<and> (\<forall>a \<in> set (utterance_pool ds).
           process_uttr cfg tok a (concat data ! a) = Inr (uttrs (heap ds) ! a)
           \<and> is_next (uttrs (heap ds) ! a)
           \<and> (ref_of (heap ds) a = None \<or> ref_of (heap ds) a = Some a))
     \<and> (\<forall>i<length (priv_segments ds).
           case segment_tags data ! i of (k, e, positive) \<Rightarrow>
             \<not> positive \<longrightarrow>
             (let n = last (priv_segments ds ! i)
              in n \<notin> set (utterance_pool ds)
                 \<and> (\<forall>a \<in> set (utterance_pool ds).
                       utterance_meta (uttrs (heap ds) ! a) \<noteq> utterance_meta (uttrs (heap ds) ! n))
                 \<and> \<not> is_next (uttrs (heap ds) ! n)
                 \<and> (\<exists>c \<in> set (utterance_pool ds).
                       c \<noteq> session_addrs 0 data ! k ! e
                       \<and> uttrs (heap ds) ! n =
                           (uttrs (heap ds) ! c)\<lparr>utterance_meta := utterance_meta (uttrs (heap ds) ! n),
                                                  is_next := False\<rparr>)))"
proof -
  from construction [OF assms] obtain us where
    us: "process_uttrs cfg tok 0 (concat data) = Inr us" and pk: "pool_ok us"
    and inv: "cinv us (heap ds)" and pool: "utterance_pool ds = [0..<length us]"
    by blast
  from process_uttrs_Inr [OF us] have len: "length us = length (concat data)"
    and pu: "\<forall>a<length (concat data). process_uttr cfg tok a (concat data ! a) = Inr (us ! a)"
    by auto
  have 1: "utterance_pool ds = [0..<length (concat data)]" by (simp add: pool len)
  have 2: "process_uttr cfg tok a (concat data ! a) = Inr (uttrs (heap ds) ! a)
           \<and> is_next (uttrs (heap ds) ! a)
           \<and> (ref_of (heap ds) a = None \<or> ref_of (heap ds) a = Some a)"
    if "a \<in> set (utterance_pool ds)" for a
  proof -
    from that have a: "a < length us" by (simp add: pool)
    have "reference_uttr (metas (heap ds) ! a) = None \<or> reference_uttr (metas (heap ds) ! a) = Some a"
      using inv a by (simp add: cinv_def)
    then show ?thesis
      using cinv_nth [OF inv a] pu a len pk ref_of_pool [OF inv pk a] by (simp add: pool_ok_def)
  qed
  have 3: "case segment_tags data ! i of (k, e, positive) \<Rightarrow>
             \<not> positive \<longrightarrow>
             (let n = last (priv_segments ds ! i)
              in n \<notin> set (utterance_pool ds)
                 \<and> (\<forall>a \<in> set (utterance_pool ds).
                       utterance_meta (uttrs (heap ds) ! a) \<noteq> utterance_meta (uttrs (heap ds) ! n))
                 \<and> \<not> is_next (uttrs (heap ds) ! n)
                 \<and> (\<exists>c \<in> set (utterance_pool ds).
                       c \<noteq> session_addrs 0 data ! k ! e
                       \<and> uttrs (heap ds) ! n =
                           (uttrs (heap ds) ! c)\<lparr>utterance_meta := utterance_meta (uttrs (heap ds) ! n),
                                                  is_next := False\<rparr>))"
    if i: "i < length (priv_segments ds)" for i
  proof (rule construction_nth [OF assms i])
    fix us' k e p
    assume us': "process_uttrs cfg tok 0 (concat data) = Inr us'"
      and t: "segment_tags data ! i = (k, e, p)"
      and ok: "seg_ok us' (history_len cfg) (session_addrs 0 data) (heap ds) (priv_segments ds ! i) (k, e, p)"
    from us us' have eq: "us' = us" by simp
    let ?pos = "session_addrs 0 data ! k ! e"
    show ?thesis
    proof (cases p)
      case True
      then show ?thesis by (simp add: t)
    next
      case False
      with ok obtain n c m where
        seg: "priv_segments ds ! i = py_slice (session_addrs 0 data ! k)
                 (nat (max 0 (int e - history_len cfg))) e @ [n]"
        and n: "length us \<le> n" and c: "c < length us"
        and u: "uttrs (heap ds) ! n = (us ! c)\<lparr>utterance_meta := m, is_next := False\<rparr>"
        and m: "length us \<le> m"
        and d: "are_different_uttrs (token_ids (us ! ?pos)) (token_ids (us ! c)) = Inr True"
        unfolding seg_ok_def Let_def eq by auto
      have ln: "last (priv_segments ds ! i) = n" by (simp add: seg)
      have a: "n \<notin> set (utterance_pool ds)" using n by (simp add: pool)
      have b: "utterance_meta (uttrs (heap ds) ! a) \<noteq> utterance_meta (uttrs (heap ds) ! n)"
        if "a \<in> set (utterance_pool ds)" for a
      proof -
        from that have "a < length us" by (simp add: pool)
        then have "utterance_meta (uttrs (heap ds) ! a) = a"
          using cinv_nth [OF inv] pk by (simp add: pool_ok_def)
        then show ?thesis using m \<open>a < length us\<close> by (simp add: u)
      qed
      have cp: "c \<noteq> ?pos" using d are_different_uttrs_self by auto
      have cu: "uttrs (heap ds) ! n =
           (uttrs (heap ds) ! c)\<lparr>utterance_meta := utterance_meta (uttrs (heap ds) ! n), is_next := False\<rparr>"
        using cinv_nth [OF inv c] by (simp add: u)
      have nn: "\<not> is_next (uttrs (heap ds) ! n)" by (simp add: u)
      have cm: "c \<in> set (utterance_pool ds)" using c by (simp add: pool)
      show ?thesis
        unfolding t prod.case Let_def ln using a b nn cp cu cm by blast
    qed
  qed
  show ?thesis using 1 2 3 by blast
qed

theorem negative_is_independent_copy_witness:
  "utterance_pool ex_ds = [0, 1, 2]
   \<and> segment_tags ex_data ! 1 = (0, 1, False)
   \<and> last (priv_segments ex_ds ! 1) = 3
   \<and> \<not> is_next (uttrs (heap ex_ds) ! 3)
   \<and> is_next (uttrs (heap ex_ds) ! 0) \<and> is_next (uttrs (heap ex_ds) ! 1)
   \<and> is_next (uttrs (heap ex_ds) ! 2)"
proof -
  have a: "utterance_pool ex_ds = [0, 1, 2]" by code_simp
  have b: "segment_tags ex_data ! 1 = (0, 1, False)" by code_simp
  have c: "last (priv_segments ex_ds ! 1) = 3" by code_simp
  have d: "(1::nat) < length (priv_segments ex_ds)" by code_simp
  note all = negative_is_independent_copy [OF ex_constructed]
  have p: "\<forall>a \<in> set (utterance_pool ex_ds). is_next (uttrs (heap ex_ds) ! a)"
    using all [THEN conjunct2, THEN conjunct1] by blast
  have "\<not> is_next (uttrs (heap ex_ds) ! 3)"
    using all [THEN conjunct2, THEN conjunct2, rule_format, OF d]
    unfolding b c prod.case Let_def by blast
  with p a b c show ?thesis by simp
qed

section \<open>Tensors\<close>

lemma length_concat_uniform:
  "\<forall>xs \<in> set xss. length xs = n \<Longrightarrow> length (concat xss) = length xss * n"
  by (induction xss) auto

lemma take_drop_concat_uniform:
  "\<forall>xs \<in> set xss. length xs = n \<Longrightarrow> k < length xss \<Longrightarrow>
   take n (drop (k * n) (concat xss)) = xss ! k"
proof (induction xss arbitrary: k)
  case Nil
  then show ?case by simp
next
  case (Cons xs xss)
  show ?case
  proof (cases k)
    case 0
    with Cons.prems show ?thesis by simp
  next
    case (Suc j)
    with Cons.prems have "take n (drop (j * n) (concat xss)) = xss ! j"
      by (intro Cons.IH) simp_all
    with Cons.prems Suc show ?thesis by simp
  qed
qed

lemma chunks_concat_uniform:
  assumes "\<forall>xs \<in> set xss. length xs = n"
  shows "map (\<lambda>i. take n (drop (i * n) (concat xss))) [0..<length xss] = xss"
  by (rule nth_equalityI) (simp_all add: take_drop_concat_uniform [OF assms])

lemma fold_max_ge: "a \<le> fold max xs (a :: nat)"
  by (induction xs arbitrary: a) (auto intro: order_trans [OF max.cobounded2])

lemma fold_max_mem: "x \<in> set xs \<Longrightarrow> x \<le> fold max xs (a :: nat)"
proof (induction xs arbitrary: a)
  case Nil
  then show ?case by simp
next
  case (Cons y ys)
  show ?case
  proof (cases "x = y")
    case True
    have "max y a \<le> fold max ys (max y a)" by (rule fold_max_ge)
    then show ?thesis using True by simp
  next
    case False
    with Cons show ?thesis by simp
  qed
qed

lemma convert_batch_ids_to_tensor_eq:
  "convert_batch_ids_to_tensor tok ids =
     map (pad_row tok (fold max (map length ids) 0)) ids"
  by (simp add: convert_batch_ids_to_tensor_def pad_row_def Let_def)

lemma length_pad_row: "length ids \<le> w \<Longrightarrow> length (pad_row tok w ids) = w"
  by (simp add: pad_row_def)

lemma tensor_rows:
  "row \<in> set (convert_batch_ids_to_tensor tok ids) \<Longrightarrow>
   length row = fold max (map length ids) 0"
  by (auto simp: convert_batch_ids_to_tensor_eq intro!: length_pad_row fold_max_mem)

lemma length_tensor: "length (convert_batch_ids_to_tensor tok ids) = length ids"
  by (simp add: convert_batch_ids_to_tensor_eq)

lemma view3_uniform:
  assumes rows: "\<forall>ys \<in> set yss. \<forall>row \<in> set ys. length row = w"
    and slots: "\<forall>ys \<in> set yss. length ys = h" and h: "0 < h" and ne: "yss \<noteq> []"
  shows "view3 (concat yss) (length yss) h = Inr yss"
proof -
  let ?t = "concat yss"
  have lt: "length ?t = length yss * h" by (rule length_concat_uniform [OF slots])
  have rw: "\<forall>row \<in> set ?t. length row = w" using rows by auto
  have numel: "length (concat ?t) = length yss * h * w"
    using length_concat_uniform [OF rw] lt by simp
  have pos: "0 < length yss * h" using h ne by simp
  then have d: "length (concat ?t) div (length yss * h) = w" by (simp add: numel)
  have m: "length (concat ?t) mod (length yss * h) = 0" by (simp add: numel)
  have "map (\<lambda>i. map (\<lambda>j. take w (drop ((i * h + j) * w) (concat ?t))) [0..<h]) [0..<length yss] = yss"
  proof (rule nth_equalityI)
    show "length (map (\<lambda>i. map (\<lambda>j. take w (drop ((i * h + j) * w) (concat ?t))) [0..<h])
             [0..<length yss]) = length yss" by simp
  next
    fix i assume "i < length (map (\<lambda>i. map (\<lambda>j. take w (drop ((i * h + j) * w) (concat ?t))) [0..<h])
             [0..<length yss])"
    then have i: "i < length yss" by simp
    then have li: "length (yss ! i) = h" using slots by simp
    have "map (\<lambda>j. take w (drop ((i * h + j) * w) (concat ?t))) [0..<h] = yss ! i"
    proof (rule nth_equalityI)
      show "length (map (\<lambda>j. take w (drop ((i * h + j) * w) (concat ?t))) [0..<h]) = length (yss ! i)"
        by (simp add: li)
    next
      fix j assume "j < length (map (\<lambda>j. take w (drop ((i * h + j) * w) (concat ?t))) [0..<h])"
      then have j: "j < h" by simp
      have "i * h + j < Suc i * h" using j by simp
      also have "\<dots> \<le> length yss * h" using i by (intro mult_le_mono1) simp
      finally have k: "i * h + j < length ?t" by (simp add: lt)
      have "take w (drop ((i * h + j) * w) (concat ?t)) = ?t ! (i * h + j)"
        by (rule take_drop_concat_uniform [OF rw k])
      also have "?t ! (i * h + j) = take h (drop (i * h) ?t) ! j"
        using j k by (simp add: nth_drop)
      also have "take h (drop (i * h) ?t) = yss ! i"
        by (rule take_drop_concat_uniform [OF slots i])
      finally show "map (\<lambda>j. take w (drop ((i * h + j) * w) (concat ?t))) [0..<h] ! j = yss ! i ! j"
        using j by simp
    qed
    with i show "map (\<lambda>i. map (\<lambda>j. take w (drop ((i * h + j) * w) (concat ?t))) [0..<h])
             [0..<length yss] ! i = yss ! i" by simp
  qed
  then show ?thesis
    using pos m d by (simp add: view3_def Let_def)
qed

lemma view2_uniform:
  assumes "\<forall>ys \<in> set yss. length ys = h"
  shows "view2 (concat yss) (length yss) h = Inr yss"
  using chunks_concat_uniform [OF assms] length_concat_uniform [OF assms]
  by (simp add: view2_def)

section \<open>The batch of \<^verbatim>\<open>next\<close>\<close>

lemma length_slots:
  "int (length ctx) \<le> hl \<Longrightarrow> length (slots hl pad ctx) = nat hl"
  by (simp add: slots_def)

lemma make_batch_empty:
  "lY l = [] \<Longrightarrow> make_batch tok l = Inl ZeroDivisionError"
  by (simp add: make_batch_def Let_def convert_batch_ids_to_tensor_eq)

lemma make_batch_extend:
  assumes ne: "ws \<noteq> []" and hl: "1 \<le> hl"
    and sh: "\<forall>w \<in> set ws. int (length (ctx_ids w)) \<le> hl \<and> length (ctx_floors w) = length (ctx_ids w)"
  shows "make_batch tok (put_views hl e ws
            \<lparr>lX = [], lY = [], lY_ref = [], lX_floor = [], lY_floor = [], lY_is_next = []\<rparr>) =
     Inr \<lparr>X = map (\<lambda>w. map (pad_row tok (fold max (map length
                      (concat (map (\<lambda>w. slots hl e (ctx_ids w)) ws))) 0))
                    (slots hl e (ctx_ids w))) ws,
          X_floor = map (\<lambda>w. slots hl 0 (ctx_floors w)) ws,
          Y = convert_batch_ids_to_tensor tok (map tgt_ids ws),
          Y_ref = convert_batch_ids_to_tensor tok (map (\<lambda>w. the (ref_ids w)) ws),
          Y_floor = map tgt_floor ws,
          Y_is_next = map tgt_is_next ws\<rparr>"
proof -
  let ?l = "put_views hl e ws \<lparr>lX = [], lY = [], lY_ref = [], lX_floor = [], lY_floor = [], lY_is_next = []\<rparr>"
  let ?xss = "map (\<lambda>w. slots hl e (ctx_ids w)) ws"
  let ?W = "fold max (map length (concat ?xss)) 0"
  let ?yss = "map (map (pad_row tok ?W)) ?xss"
  let ?fss = "map (\<lambda>w. slots hl 0 (ctx_floors w)) ws"
  let ?H = "nat hl"
  have H: "0 < ?H" using hl by simp
  have lX: "lX ?l = concat ?xss" and lXf: "lX_floor ?l = concat ?fss"
    and lY: "lY ?l = map tgt_ids ws" and lYr: "lY_ref ?l = map (\<lambda>w. the (ref_ids w)) ws"
    and lYf: "lY_floor ?l = map tgt_floor ws" and lYn: "lY_is_next ?l = map tgt_is_next ws"
    by (simp_all add: put_views_def)
  have tX: "convert_batch_ids_to_tensor tok (lX ?l) = concat ?yss"
    by (simp add: lX convert_batch_ids_to_tensor_eq map_concat)
  have rows: "\<forall>ys \<in> set ?yss. \<forall>row \<in> set ys. length row = ?W"
  proof (intro ballI)
    fix ys row assume "ys \<in> set ?yss" "row \<in> set ys"
    then obtain w ids where "w \<in> set ws" "ids \<in> set (slots hl e (ctx_ids w))"
      and row: "row = pad_row tok ?W ids" by auto
    then have "length ids \<in> set (map length (concat ?xss))" by auto
    then have "length ids \<le> ?W" by (rule fold_max_mem)
    then show "length row = ?W" by (simp add: row length_pad_row)
  qed
  have sl: "\<forall>ys \<in> set ?yss. length ys = ?H"
    using sh by (auto simp: length_slots)
  have fl: "\<forall>ys \<in> set ?fss. length ys = ?H"
    using sh by (auto simp: length_slots)
  have ly: "length ?yss = length ws" "length ?fss = length ws" by simp_all
  have ne': "?yss \<noteq> []" using ne by simp
  have v3: "view3 (concat ?yss) (length ws) ?H = Inr ?yss"
    using view3_uniform [OF rows sl H ne'] by (simp only: ly)
  have v2: "view2 (concat ?fss) (length ws) ?H = Inr ?fss"
    using view2_uniform [OF fl] by (simp only: ly)
  have bs: "length (convert_batch_ids_to_tensor tok (map tgt_ids ws)) = length ws"
    by (simp add: length_tensor)
  have lt: "length (concat ?yss) = length ws * ?H"
    using length_concat_uniform [OF sl] by (simp only: ly)
  have dv: "length (concat ?yss) div length ws = ?H"
    unfolding lt using ne by simp
  have "make_batch tok ?l =
      (if length (convert_batch_ids_to_tensor tok (map tgt_ids ws)) = 0 then Inl ZeroDivisionError
       else case view3 (concat ?yss) (length (convert_batch_ids_to_tensor tok (map tgt_ids ws)))
                  (length (concat ?yss) div length (convert_batch_ids_to_tensor tok (map tgt_ids ws))) of
              Inl e \<Rightarrow> Inl e
            | Inr vX \<Rightarrow>
                (case view2 (concat ?fss) (length (convert_batch_ids_to_tensor tok (map tgt_ids ws)))
                        (length (concat ?yss) div length (convert_batch_ids_to_tensor tok (map tgt_ids ws))) of
                   Inl e \<Rightarrow> Inl e
                 | Inr vX_floor \<Rightarrow>
                     Inr \<lparr>X = vX, X_floor = vX_floor,
                          Y = convert_batch_ids_to_tensor tok (map tgt_ids ws),
                          Y_ref = convert_batch_ids_to_tensor tok (map (\<lambda>w. the (ref_ids w)) ws),
                          Y_floor = map tgt_floor ws, Y_is_next = map tgt_is_next ws\<rparr>))"
    unfolding make_batch_def Let_def tX unfolding lXf lY lYr lYf lYn ..
  also have "\<dots> = Inr \<lparr>X = ?yss, X_floor = ?fss,
          Y = convert_batch_ids_to_tensor tok (map tgt_ids ws),
          Y_ref = convert_batch_ids_to_tensor tok (map (\<lambda>w. the (ref_ids w)) ws),
          Y_floor = map tgt_floor ws, Y_is_next = map tgt_is_next ws\<rparr>"
    unfolding bs dv v3 v2 using ne by simp
  finally show ?thesis by simp
qed

lemma ds_next_batch:
  assumes s: "segments ds = Some segs" and c: "cur_segment_idx ds = Some c" and lt: "c < length segs"
    and hl: "1 \<le> history_len ds"
    and vs: "\<forall>seg \<in> set (drop c segs). \<exists>w. seg_view (heap ds) seg = Some w \<and> ref_ids w \<noteq> None
                \<and> int (length (ctx_ids w)) \<le> history_len ds
                \<and> length (ctx_floors w) = length (ctx_ids w)"
  shows "\<exists>n ws. c + n \<le> length segs
      \<and> ws = accepted p (map (\<lambda>seg. the (seg_view (heap ds) seg)) (take n (drop c segs)))
      \<and> snd (ds_next bs p ds) = ds\<lparr>cur_segment_idx := Some (c + n)\<rparr>
      \<and> (c + n = length segs \<or> int (length ws) = bs)
      \<and> (0 \<le> bs \<longrightarrow> int (length ws) \<le> bs)
      \<and> fst (ds_next bs p ds) =
            (if ws = [] then Inl ZeroDivisionError
             else Inr (Some (batch_of (tokenizer ds) (history_len ds) ws)))"
proof -
  let ?e = "empty_ids (tokenizer ds)"
  let ?l0 = "\<lparr>lX = [], lY = [], lY_ref = [], lX_floor = [], lY_floor = [], lY_is_next = ([] :: bool list)\<rparr>"
  let ?vs = "map (seg_view (heap ds)) (drop c segs)"
  let ?r = "collect (history_len ds) bs p ?e ?vs ?l0"
  have nl: "next_loop (heap ds) (history_len ds) segs bs p ?e c ?l0 = apsnd ((+) c) ?r"
    using lt by (simp add: next_loop_collect)
  have "\<forall>v \<in> set ?vs. \<exists>w. v = Some w \<and> ref_ids w \<noteq> None" using vs by auto
  from collect_total [OF this] obtain l' where "fst ?r = Inr l'" by blast
  then obtain n where r: "?r = (Inr l', n)" by (cases ?r) auto
  define ws where "ws = accepted p (map the (take n ?vs))"
  note cr = collect_Inr [OF r]
  have n: "n \<le> length ?vs" using cr by blast
  have l': "l' = put_views (history_len ds) ?e ws ?l0" unfolding ws_def using cr by blast
  have stop: "n = length ?vs \<or> int (length (lY l')) = bs" using cr by blast
  have ly: "length (lY l') = length ws" by (simp add: l' lY_put_views)
  have bound: "0 \<le> bs \<longrightarrow> int (length ws) \<le> bs"
    using collect_bound [OF r] ly by simp
  have ws': "ws = accepted p (map (\<lambda>seg. the (seg_view (heap ds) seg)) (take n (drop c segs)))"
    by (simp add: ws_def take_map comp_def)
  have sh: "\<forall>w \<in> set ws. int (length (ctx_ids w)) \<le> history_len ds
                \<and> length (ctx_floors w) = length (ctx_ids w)"
  proof
    fix w assume "w \<in> set ws"
    then obtain seg where "seg \<in> set (take n (drop c segs))" "w = the (seg_view (heap ds) seg)"
      by (auto simp: ws' accepted_def)
    moreover then have "seg \<in> set (drop c segs)" by (meson in_set_takeD)
    ultimately show "int (length (ctx_ids w)) \<le> history_len ds
                \<and> length (ctx_floors w) = length (ctx_ids w)"
      using vs by auto
  qed
  have mb: "make_batch (tokenizer ds) l' =
      (if ws = [] then Inl ZeroDivisionError
       else Inr (batch_of (tokenizer ds) (history_len ds) ws))"
  proof (cases "ws = []")
    case True
    then show ?thesis using make_batch_empty [of l'] by (simp add: l' lY_put_views)
  next
    case False
    then show ?thesis
      unfolding l' using make_batch_extend [OF False hl sh] by (simp add: batch_of_def)
  qed
  have nlr: "next_loop (heap ds) (history_len ds) segs bs p ?e c ?l0 = (Inr l', c + n)"
    by (simp add: nl r)
  have nlr1: "fst (next_loop (heap ds) (history_len ds) segs bs p ?e c ?l0) = Inr l'"
    and nlr2: "snd (next_loop (heap ds) (history_len ds) segs bs p ?e c ?l0) = c + n"
    by (simp_all add: nlr)
  have dn: "ds_next bs p ds =
      (case make_batch (tokenizer ds) l' of
         Inl e \<Rightarrow> (Inl e, ds\<lparr>cur_segment_idx := Some (c + n)\<rparr>)
       | Inr b \<Rightarrow> (Inr (Some b), ds\<lparr>cur_segment_idx := Some (c + n)\<rparr>))"
    using s c lt nlr1 nlr2 unfolding ds_next_def Let_def empty_ids_def [symmetric]
    by (simp split: sum.splits)
  have "c + n \<le> length segs" using n lt by simp
  moreover have "c + n = length segs \<or> int (length ws) = bs"
    using stop lt by (auto simp: ly)
  moreover have "snd (ds_next bs p ds) = ds\<lparr>cur_segment_idx := Some (c + n)\<rparr>"
    unfolding dn by (simp split: sum.splits)
  moreover have "fst (ds_next bs p ds) =
            (if ws = [] then Inl ZeroDivisionError
             else Inr (Some (batch_of (tokenizer ds) (history_len ds) ws)))"
    unfolding dn mb by simp
  ultimately show ?thesis using ws' bound by blast
qed

section \<open>\<^verbatim>\<open>copy.deepcopy\<close> and \<^verbatim>\<open>random.shuffle\<close>\<close>

lemma index_of_mem: "x \<in> set xs \<Longrightarrow> index_of xs x < length xs \<and> xs ! index_of xs x = x"
  by (induction xs) auto

lemma visit_closed:
  "wf_store st \<Longrightarrow> memo_closed st memo {a} \<Longrightarrow> a < length (uttrs st) \<Longrightarrow>
   memo_closed st (visit st memo a) {} \<and> a \<in> set (fst (visit st memo a))
   \<and> set (fst memo) \<subseteq> set (fst (visit st memo a))"
proof (induction st memo a rule: visit.induct)
  case (1 st us ms a)
  let ?m = "utterance_meta (uttrs st ! a)"
  have mv: "?m < length (metas st)" using "1.prems"(1,3) by (simp add: wf_store_def)
  show ?case
  proof (cases "a \<in> set us")
    case True
    then have "visit st (us, ms) a = (us, ms)" by (subst visit.simps) simp
    then show ?thesis using True "1.prems"(2) by (auto simp: memo_closed_def)
  next
    case na: False
    show ?thesis
    proof (cases "?m \<in> set ms")
      case True
      then have "visit st (us, ms) a = (us @ [a], ms)"
        using na "1.prems"(3) by (subst visit.simps) simp
      then show ?thesis using True "1.prems"(2,3) by (auto simp: memo_closed_def)
    next
      case nm: False
      show ?thesis
      proof (cases "reference_uttr (metas st ! ?m)")
        case None
        then have "visit st (us, ms) a = (us @ [a], ms @ [?m])"
          using na nm mv "1.prems"(3) by (subst visit.simps) simp
        then show ?thesis using None "1.prems"(2,3) by (auto simp: memo_closed_def)
      next
        case (Some r)
        then have v: "visit st (us, ms) a = visit st (us @ [a], ms @ [?m]) r"
          using na nm mv "1.prems"(3) by (subst visit.simps) simp
        have r: "r < length (uttrs st)" using "1.prems"(1) mv Some by (auto simp: wf_store_def)
        have c: "memo_closed st (us @ [a], ms @ [?m]) {r}"
          using "1.prems"(2,3) Some by (auto simp: memo_closed_def)
        have "memo_closed st (visit st (us @ [a], ms @ [?m]) r) {}
              \<and> r \<in> set (fst (visit st (us @ [a], ms @ [?m]) r))
              \<and> set (fst (us @ [a], ms @ [?m])) \<subseteq> set (fst (visit st (us @ [a], ms @ [?m]) r))"
          using "1.IH" [OF _ refl _ Some "1.prems"(1) c r] na nm mv "1.prems"(3) by simp
        then show ?thesis unfolding v by auto
      qed
    qed
  qed
qed

lemma visit_all_closed:
  "wf_store st \<Longrightarrow> memo_closed st memo {} \<Longrightarrow> \<forall>a \<in> set roots. a < length (uttrs st) \<Longrightarrow>
   memo_closed st (fold (\<lambda>a memo. visit st memo a) roots memo) {}
   \<and> set roots \<union> set (fst memo) \<subseteq> set (fst (fold (\<lambda>a memo. visit st memo a) roots memo))"
proof (induction roots arbitrary: memo)
  case Nil
  then show ?case by simp
next
  case (Cons a roots)
  have "memo_closed st memo {a}" using Cons.prems(2) by (auto simp: memo_closed_def)
  from visit_closed [OF Cons.prems(1) this] Cons.prems(3)
  have v: "memo_closed st (visit st memo a) {}" "a \<in> set (fst (visit st memo a))"
    "set (fst memo) \<subseteq> set (fst (visit st memo a))" by auto
  from Cons.IH [OF Cons.prems(1) v(1)] Cons.prems(3)
  have "memo_closed st (fold (\<lambda>a memo. visit st memo a) roots (visit st memo a)) {}
   \<and> set roots \<union> set (fst (visit st memo a))
        \<subseteq> set (fst (fold (\<lambda>a memo. visit st memo a) roots (visit st memo a)))" by simp
  then show ?case using v by auto
qed

lemma copy_objects_view:
  assumes cl: "memo_closed st memo {}" and seg: "set seg \<subseteq> set (fst memo)"
  shows "seg_view (copy_objects st memo) (map (\<lambda>a. length (uttrs st) + index_of (fst memo) a) seg)
         = seg_view st seg"
proof (cases "seg = []")
  case True
  then show ?thesis by (simp add: seg_view_def)
next
  case False
  let ?us = "fst memo" and ?ms = "snd memo"
  let ?st' = "copy_objects st memo"
  let ?rl = "\<lambda>a. length (uttrs st) + index_of ?us a"
  have u: "uttrs ?st' ! ?rl a =
      (uttrs st ! a)\<lparr>utterance_meta := length (metas st) + index_of ?ms (utterance_meta (uttrs st ! a))\<rparr>"
    if "a \<in> set ?us" for a
    using index_of_mem [OF that] by (simp add: copy_objects_def Let_def nth_append)
  have m: "metas ?st' ! (length (metas st) + index_of ?ms k) =
      (metas st ! k)\<lparr>reference_uttr := map_option ?rl (reference_uttr (metas st ! k))\<rparr>"
    if "k \<in> set ?ms" for k
    using index_of_mem [OF that] by (simp add: copy_objects_def Let_def nth_append)
  have ids: "token_ids (uttrs ?st' ! ?rl a) = token_ids (uttrs st ! a)"
    and fl: "floor_id (uttrs ?st' ! ?rl a) = floor_id (uttrs st ! a)"
    and nx: "is_next (uttrs ?st' ! ?rl a) = is_next (uttrs st ! a)"
    if "a \<in> set ?us" for a
    using u [OF that] by simp_all
  have rf: "ref_of ?st' (?rl a) = map_option ?rl (ref_of st a)" if "a \<in> set ?us" for a
  proof -
    have "utterance_meta (uttrs st ! a) \<in> set ?ms" using cl that by (simp add: memo_closed_def)
    from m [OF this] show ?thesis by (simp add: ref_of_def u [OF that])
  qed
  have rin: "r \<in> set ?us" if "a \<in> set ?us" "ref_of st a = Some r" for a r
    using cl that by (auto simp: memo_closed_def ref_of_def)
  have l: "last seg \<in> set ?us" using False seg by auto
  have bl: "set (butlast seg) \<subseteq> set ?us" using seg by (meson in_set_butlastD subsetD subsetI)
  have ri: "map_option (\<lambda>r. token_ids (uttrs ?st' ! r)) (ref_of ?st' (?rl (last seg)))
      = map_option (\<lambda>r. token_ids (uttrs st ! r)) (ref_of st (last seg))"
  proof (cases "ref_of st (last seg)")
    case None
    then show ?thesis by (simp add: rf [OF l])
  next
    case (Some r)
    then show ?thesis using ids [OF rin [OF l Some]] by (simp add: rf [OF l])
  qed
  have c1: "map (\<lambda>a. token_ids (uttrs ?st' ! a)) (butlast (map ?rl seg))
      = map (\<lambda>a. token_ids (uttrs st ! a)) (butlast seg)"
    using bl ids by (simp add: map_butlast [symmetric] subset_iff)
  have c2: "map (\<lambda>a. floor_id (uttrs ?st' ! a)) (butlast (map ?rl seg))
      = map (\<lambda>a. floor_id (uttrs st ! a)) (butlast seg)"
    using bl fl by (simp add: map_butlast [symmetric] subset_iff)
  have lm: "last (map ?rl seg) = ?rl (last seg)" using False by (simp add: last_map)
  show ?thesis
    unfolding seg_view_def c1 c2 lm ri ids [OF l] fl [OF l] nx [OF l] using False by simp
qed

lemma swap_map:
  "i < length xs \<Longrightarrow> j < length xs \<Longrightarrow> swap i j (map f xs) = map f (swap i j xs)"
  by (simp add: swap_def map_update)

lemma length_swap: "length (swap i j xs) = length xs"
  by (simp add: swap_def)

lemma set_swap_subset: "i < length xs \<Longrightarrow> j < length xs \<Longrightarrow> set (swap i j xs) \<subseteq> set xs"
  unfolding swap_def using set_update_subset_insert [of "xs[i := xs ! j]" j "xs ! i"]
    set_update_subset_insert [of xs i "xs ! j"] by auto

lemma shuffle_loop_map:
  "i < length xs \<Longrightarrow> shuffle_loop rng k i (map f xs) = map f (shuffle_loop rng k i xs)"
proof (induction i arbitrary: k xs)
  case 0
  then show ?case by simp
next
  case (Suc i)
  have "rng k mod (Suc i + 1) < Suc i + 1" by (rule mod_less_divisor) simp
  then have j: "rng k mod (Suc i + 1) < length xs" using Suc.prems by linarith
  show ?case
    using Suc.prems j Suc.IH [of "swap (Suc i) (rng k mod (Suc i + 1)) xs" "Suc k"]
    by (simp add: swap_map length_swap)
qed

lemma shuffle_loop_set:
  "i < length xs \<Longrightarrow> set (shuffle_loop rng k i xs) \<subseteq> set xs"
proof (induction i arbitrary: k xs)
  case 0
  then show ?case by simp
next
  case (Suc i)
  have "rng k mod (Suc i + 1) < Suc i + 1" by (rule mod_less_divisor) simp
  then have j: "rng k mod (Suc i + 1) < length xs" using Suc.prems by linarith
  have "set (shuffle_loop rng (Suc k) i (swap (Suc i) (rng k mod (Suc i + 1)) xs))
        \<subseteq> set (swap (Suc i) (rng k mod (Suc i + 1)) xs)"
    using Suc.prems by (intro Suc.IH) (simp add: length_swap)
  also have "\<dots> \<subseteq> set xs" using Suc.prems j by (intro set_swap_subset)
  finally show ?case by simp
qed

lemma random_shuffle_map: "random_shuffle rng (map f xs) = map f (random_shuffle rng xs)"
proof (cases xs)
  case Nil
  then show ?thesis by (simp add: random_shuffle_def)
next
  case (Cons x ys)
  then have "length xs - 1 < length xs" by simp
  from shuffle_loop_map [OF this, of rng 0 f] show ?thesis
    by (simp add: random_shuffle_def)
qed

lemma random_shuffle_set: "set (random_shuffle rng xs) \<subseteq> set xs"
proof (cases xs)
  case Nil
  then show ?thesis by (simp add: random_shuffle_def)
next
  case (Cons x ys)
  then show ?thesis unfolding random_shuffle_def by (intro shuffle_loop_set) simp
qed

lemma random_shuffle_all2:
  assumes "list_all2 P xs ys"
  shows "list_all2 P (random_shuffle rng xs) (random_shuffle rng ys)"
proof -
  let ?zs = "zip xs ys"
  have l: "length xs = length ys" using assms by (rule list_all2_lengthD)
  have x: "xs = map fst ?zs" and y: "ys = map snd ?zs" using l by simp_all
  have "\<forall>z \<in> set ?zs. P (fst z) (snd z)"
    using assms by (auto simp: list_all2_iff)
  then have "\<forall>z \<in> set (random_shuffle rng ?zs). P (fst z) (snd z)"
    using random_shuffle_set [of rng ?zs] by blast
  then have "list_all2 P (map fst (random_shuffle rng ?zs)) (map snd (random_shuffle rng ?zs))"
    by (simp add: list_all2_map1 list_all2_map2 list_all2_same)
  then have "list_all2 P (random_shuffle rng (map fst ?zs)) (random_shuffle rng (map snd ?zs))"
    by (simp only: random_shuffle_map)
  then show ?thesis using x y by simp
qed

section \<open>The views of an epoch\<close>

lemma pool_ids:
  assumes c: "DataSourceUnsupervised data cfg tok tape = Some (Inr ds)"
    and k: "k < length data" and j: "j < length (data ! k)"
  shows "token_ids (uttrs (heap ds) ! (session_addrs 0 data ! k ! j)) = raw_token_ids cfg tok (data ! k ! j)"
proof -
  from construction [OF c] obtain us where
    us: "process_uttrs cfg tok 0 (concat data) = Inr us" and inv: "cinv us (heap ds)"
    by blast
  from process_uttrs_Inr [OF us] have len: "length us = length (concat data)" by simp
  have "session_addrs 0 data ! k ! j < length us"
    using session_nth [OF k j] len by simp
  from cinv_nth [OF inv this] pool_token_ids [OF us k j] show ?thesis by simp
qed

lemma canonical_views:
  assumes c: "DataSourceUnsupervised data cfg tok tape = Some (Inr ds)" and hl: "1 \<le> history_len cfg"
  shows "list_all2 (view_ok cfg tok data) (map (seg_view (heap ds)) (priv_segments ds)) (segment_tags data)"
proof (rule list_all2_all_nthI)
  show "length (map (seg_view (heap ds)) (priv_segments ds)) = length (segment_tags data)"
    using construction_length [OF c] by simp
next
  fix i assume "i < length (map (seg_view (heap ds)) (priv_segments ds))"
  then have i: "i < length (priv_segments ds)" by simp
  obtain k e p where t: "segment_tags data ! i = (k, e, p)" by (cases "segment_tags data ! i") auto
  let ?seg = "priv_segments ds ! i"
  let ?sess = "session_addrs 0 data ! k"
  let ?start = "nat (max 0 (int e - history_len cfg))"
  note sa = segment_at [OF c hl i, unfolded t prod.case Let_def]
  from sa have k: "k < length data" and ls: "length ?sess = length (data ! k)"
    and e: "e < length ?sess" and l2: "2 \<le> length ?seg" and lh: "int (length ?seg) \<le> history_len cfg + 1"
    and bl: "butlast ?seg = map (\<lambda>j. ?sess ! j) [?start..<e]"
    and rf: "ref_of (heap ds) (last ?seg) = Some (?sess ! e)"
    and tg: "if p then last ?seg = ?sess ! e \<and> is_next (uttrs (heap ds) ! last ?seg)
             else last ?seg \<notin> set (utterance_pool ds) \<and> \<not> is_next (uttrs (heap ds) ! last ?seg)"
    by blast+
  have ne: "?seg \<noteq> []" using l2 by auto
  have ek: "e < length (data ! k)" using e ls by simp
  define w where "w = the (seg_view (heap ds) ?seg)"
  have sv: "seg_view (heap ds) ?seg = Some w" using ne by (simp add: w_def seg_view_def)
  have ci: "ctx_ids w = map (\<lambda>j. raw_token_ids cfg tok (data ! k ! j)) [?start..<e]"
  proof -
    have "ctx_ids w = map (\<lambda>j. token_ids (uttrs (heap ds) ! (?sess ! j))) [?start..<e]"
      using ne by (simp add: w_def seg_view_def bl comp_def)
    also have "\<dots> = map (\<lambda>j. raw_token_ids cfg tok (data ! k ! j)) [?start..<e]"
      by (rule map_cong) (use ek in \<open>simp_all add: pool_ids [OF c k]\<close>)
    finally show ?thesis .
  qed
  have lc: "length (ctx_ids w) = length ?seg - 1" "length (ctx_floors w) = length (ctx_ids w)"
    using ne by (simp_all add: w_def seg_view_def)
  have ri: "ref_ids w = Some (raw_token_ids cfg tok (data ! k ! e))"
    using ne rf pool_ids [OF c k ek] by (simp add: w_def seg_view_def)
  have tn: "tgt_is_next w = p"
    using ne tg by (auto simp: w_def seg_view_def split: if_splits)
  have ti: "p \<longrightarrow> tgt_ids w = raw_token_ids cfg tok (data ! k ! e)"
    using ne tg pool_ids [OF c k ek] by (auto simp: w_def seg_view_def)
  have "view_ok cfg tok data (seg_view (heap ds) ?seg) (k, e, p)"
    unfolding view_ok_def using sv ci lc ri tn ti l2 lh by simp
  then show "view_ok cfg tok data (map (seg_view (heap ds)) (priv_segments ds) ! i) (segment_tags data ! i)"
    using i t by simp
qed

lemma cinv_meta_beyond:
  "cinv us st \<Longrightarrow> length us \<le> m \<Longrightarrow> m < length (metas st) \<Longrightarrow>
   \<exists>r<length us. reference_uttr (metas st ! m) = Some r"
  by (simp add: cinv_def)

lemma length_shuffle_loop: "length (shuffle_loop rng k i xs) = length xs"
  by (induction i arbitrary: k xs) (simp_all add: length_swap)

lemma length_random_shuffle: "length (random_shuffle rng xs) = length xs"
  by (simp add: random_shuffle_def length_shuffle_loop)

lemma constructed_wf:
  assumes c: "DataSourceUnsupervised data cfg tok tape = Some (Inr ds)"
  shows "wf_store (heap ds) \<and> (\<forall>seg \<in> set (priv_segments ds). \<forall>a \<in> set seg. a < length (uttrs (heap ds)))"
proof -
  from construction [OF c] obtain us where
    us: "process_uttrs cfg tok 0 (concat data) = Inr us" and pk: "pool_ok us"
    and inv: "cinv us (heap ds)"
    and l: "list_all2 (seg_ok us (history_len cfg) (session_addrs 0 data) (heap ds))
          (priv_segments ds) (segment_tags data)"
    by blast
  from process_uttrs_Inr [OF us] have len: "length us = length (concat data)" by simp
  have lu: "length us \<le> length (uttrs (heap ds))" and lm: "length us \<le> length (metas (heap ds))"
    using inv by (simp_all add: cinv_def)
  have w1: "utterance_meta (uttrs (heap ds) ! a) < length (metas (heap ds))"
    if "a < length (uttrs (heap ds))" for a
  proof (cases "a < length us")
    case True
    then show ?thesis using cinv_nth [OF inv True] pk lm by (simp add: pool_ok_def)
  next
    case False
    then show ?thesis using inv that by (simp add: cinv_def)
  qed
  have w2: "r < length (uttrs (heap ds))"
    if "m < length (metas (heap ds))" "reference_uttr (metas (heap ds) ! m) = Some r" for m r
  proof (cases "m < length us")
    case True
    then have "r = m" using inv that by (auto simp: cinv_def)
    then show ?thesis using True lu by simp
  next
    case False
    then have "length us \<le> m" by simp
    from cinv_meta_beyond [OF inv this that(1)] obtain r' where
      "r' < length us" "reference_uttr (metas (heap ds) ! m) = Some r'" by blast
    then show ?thesis using that lu by simp
  qed
  have wf: "wf_store (heap ds)" unfolding wf_store_def using w1 w2 by blast
  have v: "a < length (uttrs (heap ds))" if "seg \<in> set (priv_segments ds)" "a \<in> set seg" for seg a
  proof -
    from that(1) obtain i where i: "i < length (priv_segments ds)" "seg = priv_segments ds ! i"
      by (auto simp: in_set_conv_nth)
    have ok: "seg_ok us (history_len cfg) (session_addrs 0 data) (heap ds) seg (segment_tags data ! i)"
      using list_all2_nthD [OF l i(1)] i(2) by simp
    have "segment_tags data ! i \<in> set (segment_tags data)"
      using i(1) list_all2_lengthD [OF l] by simp
    from segment_tags_mem [OF this] have k: "fst (segment_tags data ! i) < length data" by simp
    let ?sess = "session_addrs 0 data ! fst (segment_tags data ! i)"
    have ss: "\<forall>b \<in> set ?sess. b < length us"
      using offset_bound [OF k] by (auto simp: session_addrs_nth [OF k] len)
    have sl: "set (py_slice ?sess x y) \<subseteq> set ?sess" for x y
      unfolding py_slice_def by (meson in_set_dropD in_set_takeD subsetI)
    show ?thesis
    proof (cases "snd (snd (segment_tags data ! i))")
      case True
      with ok have "seg = py_slice ?sess (nat (max 0 (int (fst (snd (segment_tags data ! i))) - history_len cfg)))
            (Suc (fst (snd (segment_tags data ! i))))"
        by (simp add: seg_ok_def Let_def)
      then have "a \<in> set ?sess" using that(2) sl by blast
      then show ?thesis using ss lu by fastforce
    next
      case False
      with ok obtain n where
        "seg = py_slice ?sess (nat (max 0 (int (fst (snd (segment_tags data ! i))) - history_len cfg)))
            (fst (snd (segment_tags data ! i))) @ [n]" "n < length (uttrs (heap ds))"
        unfolding seg_ok_def Let_def by auto
      then have "a \<in> set ?sess \<or> a = n \<and> n < length (uttrs (heap ds))" using that(2) sl by auto
      then show ?thesis using ss lu by fastforce
    qed
  qed
  show ?thesis using wf v by blast
qed

lemma deepcopy_segments_views:
  assumes wf: "wf_store st" and v: "\<forall>seg \<in> set segs. \<forall>a \<in> set seg. a < length (uttrs st)"
  shows "map (seg_view (fst (deepcopy_segments st segs))) (snd (deepcopy_segments st segs))
         = map (seg_view st) segs"
proof -
  let ?memo = "fold (\<lambda>a memo. visit st memo a) (concat segs) ([], [])"
  have c0: "memo_closed st ([], []) {}" by (simp add: memo_closed_def)
  have rv: "\<forall>a \<in> set (concat segs). a < length (uttrs st)" using v by auto
  from visit_all_closed [OF wf c0 rv] have cl: "memo_closed st ?memo {}"
    and sub: "set (concat segs) \<subseteq> set (fst ?memo)" by auto
  have "seg_view (copy_objects st ?memo) (map (\<lambda>a. length (uttrs st) + index_of (fst ?memo) a) seg)
         = seg_view st seg" if "seg \<in> set segs" for seg
    by (rule copy_objects_view [OF cl]) (use sub that in auto)
  then show ?thesis
    by (simp add: deepcopy_segments_def Let_def comp_def cong: map_cong)
qed

lemma epoch_views:
  assumes c: "DataSourceUnsupervised data cfg tok tape = Some (Inr ds)" and hl: "1 \<le> history_len cfg"
  shows "\<exists>segs. segments (epoch_init shuffle rng ds) = Some segs
     \<and> cur_segment_idx (epoch_init shuffle rng ds) = Some 0
     \<and> history_len (epoch_init shuffle rng ds) = history_len cfg
     \<and> tokenizer (epoch_init shuffle rng ds) = tok
     \<and> length segs = length (priv_segments ds)
     \<and> list_all2 (view_ok cfg tok data) (map (seg_view (heap (epoch_init shuffle rng ds))) segs)
          (epoch_tags shuffle rng data)"
proof -
  from construction [OF c] have o: "history_len ds = history_len cfg" "tokenizer ds = tok" by blast+
  note cv = canonical_views [OF c hl]
  show ?thesis
  proof (cases shuffle)
    case False
    then show ?thesis using cv o by (simp add: epoch_init_def epoch_tags_def)
  next
    case True
    let ?d = "deepcopy_segments (heap ds) (priv_segments ds)"
    have e: "segments (epoch_init shuffle rng ds) = Some (random_shuffle rng (snd ?d))"
      "heap (epoch_init shuffle rng ds) = fst ?d"
      "cur_segment_idx (epoch_init shuffle rng ds) = Some 0"
      "history_len (epoch_init shuffle rng ds) = history_len cfg"
      "tokenizer (epoch_init shuffle rng ds) = tok"
      using True o by (simp_all add: epoch_init_def split_beta)
    from constructed_wf [OF c] have "map (seg_view (fst ?d)) (snd ?d) = map (seg_view (heap ds)) (priv_segments ds)"
      by (intro deepcopy_segments_views) auto
    then have "list_all2 (view_ok cfg tok data) (map (seg_view (fst ?d)) (snd ?d)) (segment_tags data)"
      using cv by simp
    then have "list_all2 (view_ok cfg tok data) (random_shuffle rng (map (seg_view (fst ?d)) (snd ?d)))
          (random_shuffle rng (segment_tags data))"
      by (rule random_shuffle_all2)
    then have l: "list_all2 (view_ok cfg tok data) (map (seg_view (fst ?d)) (random_shuffle rng (snd ?d)))
          (epoch_tags shuffle rng data)"
      using True by (simp add: random_shuffle_map epoch_tags_def)
    have "length (random_shuffle rng (snd ?d)) = length (priv_segments ds)"
      using list_all2_lengthD [OF l] construction_length [OF c] True
      by (simp add: epoch_tags_def length_random_shuffle)
    then show ?thesis using e l by simp
  qed
qed

section \<open>The constructor returns\<close>

lemma sample_negative_append:
  "sample_negative st pool ids tape = Some (Inr (c, rest)) \<Longrightarrow>
   sample_negative st pool ids (tape @ ext) = Some (Inr (c, rest @ ext))"
proof (induction tape)
  case Nil
  then show ?case by (simp split: if_splits)
next
  case (Cons k tape)
  then show ?case
    by (auto simp: Let_def split: if_splits sum.splits bool.splits)
qed

lemma sample_negative_returns:
  assumes ne: "pool \<noteq> []" and ids: "set pos \<noteq> {}"
    and all: "\<forall>a \<in> set pool. set (token_ids (uttrs st ! a)) \<noteq> {}"
    and good: "\<exists>a \<in> set pool. coverage_score pos (token_ids (uttrs st ! a)) < 8 / 10"
  shows "\<exists>ext c rest. sample_negative st pool pos (tape @ ext) = Some (Inr (c, rest))"
proof (induction tape)
  case Nil
  from good obtain a where a: "a \<in> set pool" "coverage_score pos (token_ids (uttrs st ! a)) < 8 / 10"
    by blast
  then obtain j where j: "j < length pool" "pool ! j = a" by (auto simp: in_set_conv_nth)
  have d: "are_different_uttrs pos (token_ids (uttrs st ! a)) = Inr True"
    using a all ids by (simp add: are_different_uttrs_def)
  have "sample_negative st pool pos ([] @ [j]) = Some (Inr (a, []))"
    using ne j d by (simp add: Let_def)
  then show ?case by blast
next
  case (Cons k tape)
  let ?c = "pool ! (k mod length pool)"
  have "k mod length pool < length pool" using ne by simp
  then have m: "?c \<in> set pool" by simp
  then have nz: "set (token_ids (uttrs st ! ?c)) \<noteq> {}" using all by blast
  show ?case
  proof (cases "coverage_score pos (token_ids (uttrs st ! ?c)) < 8 / 10")
    case True
    then have "are_different_uttrs pos (token_ids (uttrs st ! ?c)) = Inr True"
      using nz ids by (simp add: are_different_uttrs_def)
    then have "sample_negative st pool pos ((k # tape) @ []) = Some (Inr (?c, tape))"
      using ne by (simp add: Let_def)
    then show ?thesis by blast
  next
    case False
    then have "are_different_uttrs pos (token_ids (uttrs st ! ?c)) = Inr False"
      using nz ids by (simp add: are_different_uttrs_def)
    then have "sample_negative st pool pos ((k # tape) @ ext) = sample_negative st pool pos (tape @ ext)"
      for ext using ne by (simp add: Let_def)
    with Cons.IH show ?thesis by simp
  qed
qed


lemma build_segments_append:
  assumes "build_segments hl pool sess e (st, segs, tape) = Some (Inr (st', segs', rest))"
  shows "build_segments hl pool sess e (st, segs, tape @ ext) = Some (Inr (st', segs', rest @ ext))"
proof -
  let ?st1 = "set_reference_uttr (sess ! e) (sess ! e) st"
  let ?ids = "token_ids (uttrs ?st1 ! (sess ! e))"
  from assms obtain c where
    c: "sample_negative ?st1 pool ?ids tape = Some (Inr (c, rest))"
    by (auto simp: build_segments_def Let_def split: option.splits sum.splits prod.splits)
  from sample_negative_append [OF c, of ext]
  have c': "sample_negative ?st1 pool ?ids (tape @ ext) = Some (Inr (c, rest @ ext))" .
  show ?thesis
    using assms unfolding build_segments_def Let_def fst_conv snd_conv c c'
    by (simp split: prod.splits)
qed

lemma build_segments_returns:
  assumes inv: "cinv us st" and pool: "pool = [0..<length us]"
    and e: "e < length sess" and sess: "\<forall>a \<in> set sess. a < length us"
    and ne: "\<forall>a<length us. set (token_ids (us ! a)) \<noteq> {}"
    and good: "\<exists>c<length us. coverage_score (token_ids (us ! (sess ! e))) (token_ids (us ! c)) < 8 / 10"
  shows "\<exists>ext s'. build_segments hl pool sess e (st, segs, tape @ ext) = Some (Inr s')"
proof -
  let ?pos = "sess ! e"
  let ?st1 = "set_reference_uttr ?pos ?pos st"
  let ?ids = "token_ids (uttrs ?st1 ! ?pos)"
  have pos: "?pos < length us" using e sess by simp
  have u1: "uttrs ?st1 = uttrs st" by (simp add: set_reference_uttr_def Let_def)
  have nth: "\<And>a. a < length us \<Longrightarrow> uttrs ?st1 ! a = us ! a"
    unfolding u1 by (rule cinv_nth [OF inv])
  have pne: "pool \<noteq> []" using pool pos by auto
  have ids: "set ?ids \<noteq> {}" using ne pos by (simp add: nth)
  have all: "\<forall>a \<in> set pool. set (token_ids (uttrs ?st1 ! a)) \<noteq> {}"
    using ne by (simp add: pool nth)
  from good obtain c where c: "c < length us"
    "coverage_score (token_ids (us ! ?pos)) (token_ids (us ! c)) < 8 / 10" by blast
  have "c \<in> set pool \<and> coverage_score ?ids (token_ids (uttrs ?st1 ! c)) < 8 / 10"
    using c pos by (simp add: pool nth)
  then have gd: "\<exists>a \<in> set pool. coverage_score ?ids (token_ids (uttrs ?st1 ! a)) < 8 / 10" by blast
  from sample_negative_returns [OF pne ids all gd, of tape] obtain ext c' rest where
    s: "sample_negative ?st1 pool ?ids (tape @ ext) = Some (Inr (c', rest))" by blast
  have "\<exists>s'. build_segments hl pool sess e (st, segs, tape @ ext) = Some (Inr s')"
    unfolding build_segments_def Let_def fst_conv snd_conv s
    by (simp split: prod.splits)
  then show ?thesis by blast
qed


lemma pairs_loop_returns:
  assumes pk: "pool_ok us" and pool: "pool = [0..<length us]"
    and ne: "\<forall>a<length us. set (token_ids (us ! a)) \<noteq> {}"
    and ps: "\<forall>p \<in> set ps. snd p < length (sessions ! fst p)
               \<and> (\<forall>a \<in> set (sessions ! fst p). a < length us)
               \<and> (\<exists>c<length us. coverage_score (token_ids (us ! (sessions ! fst p ! snd p)))
                                    (token_ids (us ! c)) < 8 / 10)"
    and inv: "cinv us st"
  shows "\<exists>ext s'. for_each (\<lambda>p. build_segments hl pool (sessions ! fst p) (snd p)) ps
                      (st, segs, tape @ ext) = Some (Inr s')"
  using ps inv
proof (induction ps arbitrary: st segs tape)
  case Nil
  then show ?case by simp
next
  case (Cons p ps)
  let ?body = "\<lambda>p. build_segments hl pool (sessions ! fst p) (snd p)"
  have e: "snd p < length (sessions ! fst p)"
    and sess: "\<forall>a \<in> set (sessions ! fst p). a < length us"
    and good: "\<exists>c<length us. coverage_score (token_ids (us ! (sessions ! fst p ! snd p)))
                                    (token_ids (us ! c)) < 8 / 10"
    using Cons.prems(1) by simp_all
  from build_segments_returns [OF Cons.prems(2) pool e sess ne good, of hl segs tape]
  obtain ext1 s1 where b: "?body p (st, segs, tape @ ext1) = Some (Inr s1)" by blast
  obtain st1 segs1 rest where s1: "s1 = (st1, segs1, rest)" by (cases s1) auto
  have pos: "sessions ! fst p ! snd p < length us" using e sess by simp
  from build_segments_step [OF Cons.prems(2) pk pool e sess b [unfolded s1]] obtain c where
    c: "c < length us"
    and u: "uttrs st1 = uttrs st @ [(us ! c)\<lparr>utterance_meta := length (metas st), is_next := False\<rparr>]"
    and l: "length (metas st1) = Suc (length (metas st))"
    and m: "\<forall>m<length (metas st). m \<noteq> sessions ! fst p ! snd p \<longrightarrow> metas st1 ! m = metas st ! m"
    and rp: "reference_uttr (metas st1 ! (sessions ! fst p ! snd p)) = Some (sessions ! fst p ! snd p)"
    and rn: "reference_uttr (metas st1 ! length (metas st)) = Some (sessions ! fst p ! snd p)"
    by blast
  have i1: "cinv us st1" by (rule cinv_step [OF Cons.prems(2) pos c u l m rp rn])
  have "\<forall>p \<in> set ps. snd p < length (sessions ! fst p)
               \<and> (\<forall>a \<in> set (sessions ! fst p). a < length us)
               \<and> (\<exists>c<length us. coverage_score (token_ids (us ! (sessions ! fst p ! snd p)))
                                    (token_ids (us ! c)) < 8 / 10)"
    using Cons.prems(1) by simp
  from Cons.IH [OF this i1, of segs1 rest] obtain ext2 s' where
    r: "for_each ?body ps (st1, segs1, rest @ ext2) = Some (Inr s')" by blast
  have "?body p (st, segs, (tape @ ext1) @ ext2) = Some (Inr (st1, segs1, rest @ ext2))"
    by (rule build_segments_append [OF b [unfolded s1]])
  then have "for_each ?body (p # ps) (st, segs, tape @ (ext1 @ ext2)) = Some (Inr s')"
    using r by simp
  then show ?case by blast
qed

lemma process_uttrs_returns:
  "\<forall>raw \<in> set raws. snd raw \<in> {''A'', ''B''} \<Longrightarrow> \<exists>us. process_uttrs cfg tok m raws = Inr us"
proof (induction raws arbitrary: m)
  case Nil
  then show ?case by simp
next
  case (Cons raw raws)
  have "\<exists>u. process_uttr cfg tok m raw = Inr u"
    using Cons.prems by (auto simp: process_uttr_def Let_def)
  moreover have "\<exists>us. process_uttrs cfg tok (Suc m) raws = Inr us"
    using Cons.IH [of "Suc m"] Cons.prems by simp
  ultimately show ?case by auto
qed

lemma constructor_returns:
  assumes wf: "well_formed cfg tok data"
  shows "\<exists>ext ds. DataSourceUnsupervised data cfg tok (tape @ ext) = Some (Inr ds)"
proof -
  let ?sessions = "session_addrs 0 data"
  let ?ps = "concat (map (\<lambda>k. map (Pair k) [1..<length (?sessions ! k)]) [0..<length ?sessions])"
  from wf have fl: "\<forall>raw \<in> set (concat data). snd raw \<in> {''A'', ''B''}"
    and nz: "\<forall>raw \<in> set (concat data). set (raw_token_ids cfg tok raw) \<noteq> {}"
    and gd: "\<forall>sess \<in> set data. \<forall>e \<in> set [1..<length sess]. \<exists>c \<in> set (concat data).
           coverage_score (raw_token_ids cfg tok (sess ! e)) (raw_token_ids cfg tok c) < 8 / 10"
    unfolding well_formed_def by blast+
  from process_uttrs_returns [OF fl] obtain us where
    us: "process_uttrs cfg tok 0 (concat data) = Inr us" by blast
  define st0 where "st0 = \<lparr>uttrs = us, metas = replicate (length us) \<lparr>reference_uttr = None\<rparr>\<rparr>"
  define pool where "pool = concat ?sessions"
  from process_uttrs_Inr [OF us] have len: "length us = length (concat data)"
    and pu: "\<forall>i<length (concat data). process_uttr cfg tok i (concat data ! i) = Inr (us ! i)"
    by auto
  have tid: "token_ids (us ! a) = raw_token_ids cfg tok (concat data ! a)" if "a < length us" for a
  proof -
    have "process_uttr cfg tok a (concat data ! a) = Inr (us ! a)" using pu that len by simp
    from process_uttr_Inr [OF this] show ?thesis by simp
  qed
  have pk: "pool_ok us"
    unfolding pool_ok_def using pu len process_uttr_Inr by metis
  have pool: "pool = [0..<length us]"
    by (simp add: pool_def concat_session_addrs len)
  have i0: "cinv us st0"
    by (simp add: cinv_def st0_def)
  have ne: "\<forall>a<length us. set (token_ids (us ! a)) \<noteq> {}"
  proof (intro allI impI)
    fix a assume a: "a < length us"
    then have "concat data ! a \<in> set (concat data)" unfolding len by (rule nth_mem)
    then have "set (raw_token_ids cfg tok (concat data ! a)) \<noteq> {}" using nz by blast
    then show "set (token_ids (us ! a)) \<noteq> {}" unfolding tid [OF a] .
  qed
  have ps: "\<forall>p \<in> set ?ps. snd p < length (?sessions ! fst p)
               \<and> (\<forall>a \<in> set (?sessions ! fst p). a < length us)
               \<and> (\<exists>c<length us. coverage_score (token_ids (us ! (?sessions ! fst p ! snd p)))
                                    (token_ids (us ! c)) < 8 / 10)"
  proof
    fix p assume "p \<in> set ?ps"
    then have k: "fst p < length data" and e: "snd p < length (?sessions ! fst p)"
      and e1: "1 \<le> snd p"
      by (auto simp: session_addrs_length)
    have e': "snd p < length (data ! fst p)" using e k by (simp add: session_addrs_nth)
    have b: "\<forall>a \<in> set (?sessions ! fst p). a < length us"
      using offset_bound [OF k] by (auto simp: session_addrs_nth [OF k] len)
    have "data ! fst p \<in> set data" using k by simp
    moreover have "snd p \<in> set [1..<length (data ! fst p)]" using e1 e' by simp
    ultimately obtain c where c: "c \<in> set (concat data)"
      "coverage_score (raw_token_ids cfg tok (data ! fst p ! snd p)) (raw_token_ids cfg tok c) < 8 / 10"
      using gd by blast
    from c(1) [unfolded in_set_conv_nth] obtain j where
      j: "j < length (concat data)" "concat data ! j = c" by blast
    have "token_ids (us ! (?sessions ! fst p ! snd p)) = raw_token_ids cfg tok (data ! fst p ! snd p)"
      by (rule pool_token_ids [OF us k e'])
    moreover have "token_ids (us ! j) = raw_token_ids cfg tok c" using tid j len by simp
    ultimately have "j < length us \<and> coverage_score (token_ids (us ! (?sessions ! fst p ! snd p)))
                                    (token_ids (us ! j)) < 8 / 10"
      using c(2) j(1) len by simp
    then have "\<exists>c<length us. coverage_score (token_ids (us ! (?sessions ! fst p ! snd p)))
                                    (token_ids (us ! c)) < 8 / 10" by blast
    with e b show "snd p < length (?sessions ! fst p)
               \<and> (\<forall>a \<in> set (?sessions ! fst p). a < length us)
               \<and> (\<exists>c<length us. coverage_score (token_ids (us ! (?sessions ! fst p ! snd p)))
                                    (token_ids (us ! c)) < 8 / 10)" by simp
  qed
  from pairs_loop_returns [OF pk pool ne ps i0, of "history_len cfg" "[]" tape]
  obtain ext s' where
    "for_each (\<lambda>p. build_segments (history_len cfg) pool (?sessions ! fst p) (snd p)) ?ps
        (st0, [], tape @ ext) = Some (Inr s')" by blast
  then have f: "for_each (\<lambda>sess. for_each (build_segments (history_len cfg) pool sess) [1..<length sess])
          ?sessions (st0, [], tape @ ext) = Some (Inr s')"
    by (simp only: for_each_sessions)
  have "\<exists>ds. DataSourceUnsupervised data cfg tok (tape @ ext) = Some (Inr ds)"
    unfolding DataSourceUnsupervised_def us Let_def
    using f [unfolded st0_def pool_def] by simp
  then show ?thesis by blast
qed


lemma sample_negative_no_error:
  assumes ne: "pool \<noteq> []" and ids: "set pos \<noteq> {}"
    and all: "\<forall>a \<in> set pool. set (token_ids (uttrs st ! a)) \<noteq> {}"
  shows "sample_negative st pool pos tape \<noteq> Some (Inl err)"
proof (induction tape)
  case Nil
  then show ?case using ne by simp
next
  case (Cons k tape)
  let ?c = "pool ! (k mod length pool)"
  have "k mod length pool < length pool" using ne by simp
  then have "?c \<in> set pool" by simp
  then have nz: "set (token_ids (uttrs st ! ?c)) \<noteq> {}" using all by blast
  have "are_different_uttrs pos (token_ids (uttrs st ! ?c)) = Inr True
      \<or> are_different_uttrs pos (token_ids (uttrs st ! ?c)) = Inr False"
    using nz ids by (simp add: are_different_uttrs_def)
  then show ?case using Cons.IH ne by (auto simp: Let_def)
qed

lemma build_segments_no_error:
  assumes inv: "cinv us st" and pool: "pool = [0..<length us]"
    and e: "e < length sess" and sess: "\<forall>a \<in> set sess. a < length us"
    and ne: "\<forall>a<length us. set (token_ids (us ! a)) \<noteq> {}"
  shows "build_segments hl pool sess e (st, segs, tape) \<noteq> Some (Inl err)"
proof -
  let ?pos = "sess ! e"
  let ?st1 = "set_reference_uttr ?pos ?pos st"
  let ?ids = "token_ids (uttrs ?st1 ! ?pos)"
  have pos: "?pos < length us" using e sess by simp
  have u1: "uttrs ?st1 = uttrs st" by (simp add: set_reference_uttr_def Let_def)
  have nth: "\<And>a. a < length us \<Longrightarrow> uttrs ?st1 ! a = us ! a"
    unfolding u1 by (rule cinv_nth [OF inv])
  have pne: "pool \<noteq> []" using pool pos by auto
  have ids: "set ?ids \<noteq> {}" using ne pos by (simp add: nth)
  have all: "\<forall>a \<in> set pool. set (token_ids (uttrs ?st1 ! a)) \<noteq> {}"
    using ne by (simp add: pool nth)
  note s = sample_negative_no_error [OF pne ids all, of tape]
  show ?thesis
    unfolding build_segments_def Let_def fst_conv snd_conv
    using s by (auto split: option.splits sum.splits prod.splits)
qed

lemma pairs_loop_no_error:
  assumes pk: "pool_ok us" and pool: "pool = [0..<length us]"
    and ne: "\<forall>a<length us. set (token_ids (us ! a)) \<noteq> {}"
    and ps: "\<forall>p \<in> set ps. snd p < length (sessions ! fst p)
               \<and> (\<forall>a \<in> set (sessions ! fst p). a < length us)"
    and inv: "cinv us st"
  shows "for_each (\<lambda>p. build_segments hl pool (sessions ! fst p) (snd p)) ps (st, segs, tape)
           \<noteq> Some (Inl err)"
  using ps inv
proof (induction ps arbitrary: st segs tape)
  case Nil
  then show ?case by simp
next
  case (Cons p ps)
  let ?body = "\<lambda>p. build_segments hl pool (sessions ! fst p) (snd p)"
  have e: "snd p < length (sessions ! fst p)"
    and sess: "\<forall>a \<in> set (sessions ! fst p). a < length us"
    using Cons.prems(1) by simp_all
  have rest: "\<forall>p \<in> set ps. snd p < length (sessions ! fst p)
               \<and> (\<forall>a \<in> set (sessions ! fst p). a < length us)"
    using Cons.prems(1) by simp
  note b0 = build_segments_no_error [OF Cons.prems(2) pool e sess ne, of hl segs tape]
  show ?case
  proof (cases "?body p (st, segs, tape)")
    case None
    then show ?thesis by simp
  next
    case (Some r)
    show ?thesis
    proof (cases r)
      case (Inl x)
      with Some b0 [of x] show ?thesis by simp
    next
      case (Inr s1)
      obtain st1 segs1 rest1 where s1: "s1 = (st1, segs1, rest1)" by (cases s1) auto
      have b: "?body p (st, segs, tape) = Some (Inr (st1, segs1, rest1))"
        using Some Inr s1 by simp
      have pos: "sessions ! fst p ! snd p < length us" using e sess by simp
      from build_segments_step [OF Cons.prems(2) pk pool e sess b] obtain c where
        c: "c < length us"
        and u: "uttrs st1 = uttrs st @ [(us ! c)\<lparr>utterance_meta := length (metas st), is_next := False\<rparr>]"
        and l: "length (metas st1) = Suc (length (metas st))"
        and m: "\<forall>m<length (metas st). m \<noteq> sessions ! fst p ! snd p \<longrightarrow> metas st1 ! m = metas st ! m"
        and rp: "reference_uttr (metas st1 ! (sessions ! fst p ! snd p)) = Some (sessions ! fst p ! snd p)"
        and rn: "reference_uttr (metas st1 ! length (metas st)) = Some (sessions ! fst p ! snd p)"
        by blast
      have i1: "cinv us st1" by (rule cinv_step [OF Cons.prems(2) pos c u l m rp rn])
      from Cons.IH [OF rest i1, of segs1 rest1] show ?thesis
        using b by simp
    qed
  qed
qed

lemma constructor_no_error:
  assumes wf: "well_formed cfg tok data"
  shows "DataSourceUnsupervised data cfg tok tape \<noteq> Some (Inl err)"
proof -
  let ?sessions = "session_addrs 0 data"
  let ?ps = "concat (map (\<lambda>k. map (Pair k) [1..<length (?sessions ! k)]) [0..<length ?sessions])"
  from wf have fl: "\<forall>raw \<in> set (concat data). snd raw \<in> {''A'', ''B''}"
    and nz: "\<forall>raw \<in> set (concat data). set (raw_token_ids cfg tok raw) \<noteq> {}"
    unfolding well_formed_def by blast+
  from process_uttrs_returns [OF fl] obtain us where
    us: "process_uttrs cfg tok 0 (concat data) = Inr us" by blast
  define st0 where "st0 = \<lparr>uttrs = us, metas = replicate (length us) \<lparr>reference_uttr = None\<rparr>\<rparr>"
  define pool where "pool = concat ?sessions"
  from process_uttrs_Inr [OF us] have len: "length us = length (concat data)"
    and pu: "\<forall>i<length (concat data). process_uttr cfg tok i (concat data ! i) = Inr (us ! i)"
    by auto
  have tid: "token_ids (us ! a) = raw_token_ids cfg tok (concat data ! a)" if "a < length us" for a
  proof -
    have "process_uttr cfg tok a (concat data ! a) = Inr (us ! a)" using pu that len by simp
    from process_uttr_Inr [OF this] show ?thesis by simp
  qed
  have pk: "pool_ok us"
    unfolding pool_ok_def using pu len process_uttr_Inr by metis
  have pool: "pool = [0..<length us]"
    by (simp add: pool_def concat_session_addrs len)
  have i0: "cinv us st0"
    by (simp add: cinv_def st0_def)
  have ne: "\<forall>a<length us. set (token_ids (us ! a)) \<noteq> {}"
  proof (intro allI impI)
    fix a assume a: "a < length us"
    then have "concat data ! a \<in> set (concat data)" unfolding len by (rule nth_mem)
    then have "set (raw_token_ids cfg tok (concat data ! a)) \<noteq> {}" using nz by blast
    then show "set (token_ids (us ! a)) \<noteq> {}" unfolding tid [OF a] .
  qed
  have ps: "\<forall>p \<in> set ?ps. snd p < length (?sessions ! fst p)
               \<and> (\<forall>a \<in> set (?sessions ! fst p). a < length us)"
  proof
    fix p assume "p \<in> set ?ps"
    then have k: "fst p < length data" and e: "snd p < length (?sessions ! fst p)"
      by (auto simp: session_addrs_length)
    have "\<forall>a \<in> set (?sessions ! fst p). a < length us"
      using offset_bound [OF k] by (auto simp: session_addrs_nth [OF k] len)
    with e show "snd p < length (?sessions ! fst p) \<and> (\<forall>a \<in> set (?sessions ! fst p). a < length us)"
      by simp
  qed
  have "for_each (\<lambda>p. build_segments (history_len cfg) pool (?sessions ! fst p) (snd p)) ?ps
        (st0, [], tape) \<noteq> Some (Inl err)"
    by (rule pairs_loop_no_error [OF pk pool ne ps i0])
  then have f: "for_each (\<lambda>sess. for_each (build_segments (history_len cfg) pool sess) [1..<length sess])
          ?sessions (st0, [], tape) \<noteq> Some (Inl err)"
    unfolding for_each_sessions .
  show ?thesis
    unfolding DataSourceUnsupervised_def us Let_def
    using f [unfolded st0_def pool_def] by (auto split: option.splits sum.splits)
qed

section \<open>Positions in the construction order\<close>

lemma concat_pairs_nth:
  "j < length es \<Longrightarrow>
   concat (map (\<lambda>e. [f e, g e]) es) ! (2 * j) = f (es ! j)
   \<and> concat (map (\<lambda>e. [f e, g e]) es) ! (2 * j + 1) = g (es ! j)"
proof (induction es arbitrary: j)
  case Nil
  then show ?case by simp
next
  case (Cons x es)
  then show ?case by (cases j) simp_all
qed

lemma segment_tags_index:
  assumes k: "k < length data" and e1: "1 \<le> e" and e: "e < length (data ! k)"
  shows "segment_index data k e + 1 < length (segment_tags data)
     \<and> segment_tags data ! segment_index data k e = (k, e, True)
     \<and> segment_tags data ! (segment_index data k e + 1) = (k, e, False)"
proof -
  let ?f = "\<lambda>k. concat (map (\<lambda>e. [(k, e, True), (k, e, False)]) [1..<length (data ! k)])"
  let ?xss = "map ?f [0..<length data]"
  have st: "segment_tags data = concat ?xss" by (simp add: segment_tags_def)
  have kx: "k < length ?xss" using k by simp
  have xk: "?xss ! k = ?f k" using k by simp
  have lk: "length (?xss ! k) = 2 * (length (data ! k) - 1)"
    unfolding xk length_concat_pairs by simp
  have "map length (take k ?xss) = map (\<lambda>j. 2 * (length (data ! j) - 1)) [0..<k]"
    using k unfolding take_map map_map comp_def length_concat_pairs by (simp add: take_upt)
  also have "\<dots> = map (\<lambda>sess. 2 * (length sess - 1)) (map (\<lambda>j. data ! j) [0..<k])"
    unfolding map_map comp_def ..
  also have "map (\<lambda>j. data ! j) [0..<k] = take k data"
  proof -
    have "take k data = take k (map (\<lambda>j. data ! j) [0..<length data])" by (simp only: map_nth)
    also have "\<dots> = map (\<lambda>j. data ! j) (take k [0..<length data])" by (rule take_map)
    also have "take k [0..<length data] = [0..<k]" using k by simp
    finally show ?thesis by simp
  qed
  finally have off: "offset ?xss k = (\<Sum>sess\<leftarrow>take k data. 2 * (length sess - 1))"
    by (simp add: offset_def)
  have idx: "segment_index data k e = offset ?xss k + 2 * (e - 1)"
    unfolding segment_index_def off ..
  have j: "e - 1 < length [1..<length (data ! k)]" using e1 e by simp
  have nj: "[1..<length (data ! k)] ! (e - 1) = e" using e1 e by simp
  have i0: "2 * (e - 1) < length (?xss ! k)" and i1: "2 * (e - 1) + 1 < length (?xss ! k)"
    unfolding lk using e1 e by simp_all
  note cp = concat_pairs_nth [OF j, of "\<lambda>e. (k, e, True)" "\<lambda>e. (k, e, False)", unfolded nj]
  have a: "segment_tags data ! segment_index data k e = (k, e, True)"
    unfolding st idx concat_nth_offset [OF kx i0] xk using cp by simp
  have "segment_tags data ! (offset ?xss k + (2 * (e - 1) + 1)) = (k, e, False)"
    unfolding st concat_nth_offset [OF kx i1] xk using cp by simp
  then have b: "segment_tags data ! (segment_index data k e + 1) = (k, e, False)"
    by (simp add: idx add.assoc)
  have "offset ?xss k + length (?xss ! k) \<le> length (concat ?xss)" by (rule offset_bound [OF kx])
  then have c: "segment_index data k e + 1 < length (segment_tags data)"
    unfolding st idx using i1 by linarith
  show ?thesis using a b c by simp
qed

lemma segment_pair:
  assumes c: "DataSourceUnsupervised data cfg tok tape = Some (Inr ds)"
    and k: "k < length data" and e1: "1 \<le> e" and e: "e < length (data ! k)"
  shows "(let i = segment_index data k e; sess = session_addrs 0 data ! k;
              start = nat (max 0 (int e - history_len cfg))
          in i + 1 < length (priv_segments ds)
             \<and> priv_segments ds ! i = py_slice sess start (e + 1)
             \<and> (0 \<le> history_len cfg \<longrightarrow> last (priv_segments ds ! i) = sess ! e)
             \<and> sess ! e \<in> set (utterance_pool ds) \<and> is_next (uttrs (heap ds) ! (sess ! e))
             \<and> (\<exists>n. priv_segments ds ! (i + 1) = py_slice sess start e @ [n]
                    \<and> n \<notin> set (utterance_pool ds) \<and> \<not> is_next (uttrs (heap ds) ! n)
                    \<and> ref_of (heap ds) n = Some (sess ! e)))"
proof -
  let ?i = "segment_index data k e"
  let ?sess = "session_addrs 0 data ! k"
  let ?start = "nat (max 0 (int e - history_len cfg))"
  let ?pos = "?sess ! e"
  let ?st = "heap ds"
  from construction [OF c] obtain us where
    pk: "pool_ok us" and inv: "cinv us ?st" and pool: "utterance_pool ds = [0..<length us]"
    and l: "list_all2 (seg_ok us (history_len cfg) (session_addrs 0 data) ?st)
          (priv_segments ds) (segment_tags data)"
    by blast
  from segment_tags_index [OF k e1 e] have
    b: "?i + 1 < length (segment_tags data)"
    and tp: "segment_tags data ! ?i = (k, e, True)"
    and tn: "segment_tags data ! (?i + 1) = (k, e, False)" by simp_all
  have len: "length (priv_segments ds) = length (segment_tags data)" by (rule list_all2_lengthD [OF l])
  have b1: "?i + 1 < length (priv_segments ds)" and b0: "?i < length (priv_segments ds)"
    using b len by simp_all
  have ls: "length ?sess = length (data ! k)" using k by (simp add: session_addrs_nth)
  have sp: "seg_ok us (history_len cfg) (session_addrs 0 data) ?st (priv_segments ds ! ?i) (k, e, True)"
    using list_all2_nthD [OF l b0] unfolding tp .
  have sn: "seg_ok us (history_len cfg) (session_addrs 0 data) ?st (priv_segments ds ! (?i + 1)) (k, e, False)"
    using list_all2_nthD [OF l b1] unfolding tn .
  from sp have pos: "?pos < length us"
    and segp: "priv_segments ds ! ?i = py_slice ?sess ?start (e + 1)"
    unfolding seg_ok_def Let_def by simp_all
  have inp: "?pos \<in> set (utterance_pool ds)" using pos by (simp add: pool)
  have "uttrs ?st ! ?pos = us ! ?pos" by (rule cinv_nth [OF inv pos])
  then have isn: "is_next (uttrs ?st ! ?pos)" using pk pos by (simp add: pool_ok_def)
  have lastp: "last (priv_segments ds ! ?i) = ?pos" if h: "0 \<le> history_len cfg"
  proof -
    have se: "?start \<le> e" using h by simp
    have "py_slice ?sess ?start (e + 1) = map (\<lambda>n. ?sess ! n) [?start..<e + 1]"
      by (rule py_slice_map) (use e ls in simp)
    also have "[?start..<e + 1] = [?start..<e] @ [e]" using se by simp
    finally show ?thesis unfolding segp by simp
  qed
  from sn obtain n c' m where
    segn: "priv_segments ds ! (?i + 1) = py_slice ?sess ?start e @ [n]"
    and n: "length us \<le> n"
    and un: "uttrs ?st ! n = (us ! c')\<lparr>utterance_meta := m, is_next := False\<rparr>"
    and rm: "reference_uttr (metas ?st ! m) = Some ?pos"
    unfolding seg_ok_def Let_def by auto
  have nn: "n \<notin> set (utterance_pool ds)" using n by (simp add: pool)
  have nin: "\<not> is_next (uttrs ?st ! n)" by (simp add: un)
  have rf: "ref_of ?st n = Some ?pos" by (simp add: ref_of_def un rm)
  have ex: "\<exists>n. priv_segments ds ! (?i + 1) = py_slice ?sess ?start e @ [n]
                    \<and> n \<notin> set (utterance_pool ds) \<and> \<not> is_next (uttrs ?st ! n)
                    \<and> ref_of ?st n = Some ?pos"
    using segn nn nin rf by blast
  show ?thesis unfolding Let_def using b1 segp lastp inp isn ex by blast
qed


text \<open>
  Claim C2. On an input on which the constructor can finish (\<open>well_formed\<close>), any
  sequence of draws of \<^verbatim>\<open>random.choice\<close> can be continued so that the constructor
  returns a data source, and no sequence of draws makes it raise. Whenever the
  constructor returns: the segment list has
  \<open>2 * (n - 1)\<close> entries for every session of \<open>n \<ge> 2\<close> utterances and none for a shorter
  one, in total; \<^verbatim>\<open>n_segments\<close> and \<^verbatim>\<open>__len__\<close> are that number; and for every session
  \<open>k\<close> and end index \<open>e\<close> from \<open>1\<close> to \<open>n - 1\<close> the list holds, at the position
  \<open>segment_index data k e\<close>, the positive segment (the slice of the session up to and
  including the true next utterance \<open>u[e]\<close>, which is flagged \<^verbatim>\<open>is_next\<close>), and at the
  next position the negative segment (the same context followed by an utterance outside
  the pool with \<^verbatim>\<open>is_next\<close> false that references \<open>u[e]\<close>). The loop over the end
  indices of one session appends \<open>2 * (n - 1)\<close> segments.
\<close>

theorem segment_count:
  "(well_formed cfg tok data \<longrightarrow>
      (\<exists>ext ds. DataSourceUnsupervised data cfg tok (tape @ ext) = Some (Inr ds))
      \<and> (\<forall>err. DataSourceUnsupervised data cfg tok tape \<noteq> Some (Inl err)))
   \<and> (\<forall>ds. DataSourceUnsupervised data cfg tok tape = Some (Inr ds) \<longrightarrow>
         length (priv_segments ds)
           = (\<Sum>sess\<leftarrow>data. if 2 \<le> length sess then 2 * (length sess - 1) else 0)
         \<and> n_segments (statistics ds) = length (priv_segments ds)
         \<and> ds_len ds = length (priv_segments ds)
         \<and> (\<forall>k e. k < length data \<and> 1 \<le> e \<and> e < length (data ! k) \<longrightarrow>
              (let i = segment_index data k e; sess = session_addrs 0 data ! k;
                   start = nat (max 0 (int e - history_len cfg))
               in i + 1 < length (priv_segments ds)
                  \<and> priv_segments ds ! i = py_slice sess start (e + 1)
                  \<and> (0 \<le> history_len cfg \<longrightarrow> last (priv_segments ds ! i) = sess ! e)
                  \<and> sess ! e \<in> set (utterance_pool ds) \<and> is_next (uttrs (heap ds) ! (sess ! e))
                  \<and> (\<exists>n. priv_segments ds ! (i + 1) = py_slice sess start e @ [n]
                         \<and> n \<notin> set (utterance_pool ds) \<and> \<not> is_next (uttrs (heap ds) ! n)
                         \<and> ref_of (heap ds) n = Some (sess ! e)))))
   \<and> (\<forall>hl pool sess s s'.
          for_each (build_segments hl pool sess) [1..<length sess] s = Some (Inr s') \<longrightarrow>
          length (fst (snd s')) = length (fst (snd s))
             + (if 2 \<le> length sess then 2 * (length sess - 1) else 0))"
proof (intro conjI impI allI)
  assume "well_formed cfg tok data"
  then show "\<exists>ext ds. DataSourceUnsupervised data cfg tok (tape @ ext) = Some (Inr ds)"
    by (rule constructor_returns)
next
  fix err assume "well_formed cfg tok data"
  then show "DataSourceUnsupervised data cfg tok tape \<noteq> Some (Inl err)"
    by (rule constructor_no_error)
next
  fix ds assume c: "DataSourceUnsupervised data cfg tok tape = Some (Inr ds)"
  have "map (\<lambda>sess. 2 * (length sess - 1)) data
      = map (\<lambda>sess. if 2 \<le> length sess then 2 * (length sess - 1) else 0) data"
    by (rule map_cong) auto
  then have "(\<Sum>sess\<leftarrow>data. 2 * (length sess - 1))
      = (\<Sum>sess\<leftarrow>data. if 2 \<le> length sess then 2 * (length sess - 1) else 0)"
    by (rule arg_cong)
  then show "length (priv_segments ds)
           = (\<Sum>sess\<leftarrow>data. if 2 \<le> length sess then 2 * (length sess - 1) else 0)"
    using construction_length [OF c] length_segment_tags [of data] by (simp only:)
  show "n_segments (statistics ds) = length (priv_segments ds)"
    using construction [OF c] by blast
  show "ds_len ds = length (priv_segments ds)" by (simp add: ds_len_def)
next
  fix ds k e
  assume c: "DataSourceUnsupervised data cfg tok tape = Some (Inr ds)"
    and ke: "k < length data \<and> 1 \<le> e \<and> e < length (data ! k)"
  from ke have k: "k < length data" and e1: "1 \<le> e" and e: "e < length (data ! k)" by simp_all
  show "(let i = segment_index data k e; sess = session_addrs 0 data ! k;
                   start = nat (max 0 (int e - history_len cfg))
               in i + 1 < length (priv_segments ds)
                  \<and> priv_segments ds ! i = py_slice sess start (e + 1)
                  \<and> (0 \<le> history_len cfg \<longrightarrow> last (priv_segments ds ! i) = sess ! e)
                  \<and> sess ! e \<in> set (utterance_pool ds) \<and> is_next (uttrs (heap ds) ! (sess ! e))
                  \<and> (\<exists>n. priv_segments ds ! (i + 1) = py_slice sess start e @ [n]
                         \<and> n \<notin> set (utterance_pool ds) \<and> \<not> is_next (uttrs (heap ds) ! n)
                         \<and> ref_of (heap ds) n = Some (sess ! e)))"
    by (rule segment_pair [OF c k e1 e])
next
  fix hl pool sess and s s' :: "store \<times> addr list list \<times> nat list"
  assume "for_each (build_segments hl pool sess) [1..<length sess] s = Some (Inr s')"
  from session_loop_length [OF this]
  show "length (fst (snd s')) = length (fst (snd s))
             + (if 2 \<le> length sess then 2 * (length sess - 1) else 0)" by auto
qed

theorem segment_count_witness:
  "well_formed ex_config ex_tokenizer ex_data
   \<and> (\<exists>ext ds. DataSourceUnsupervised ex_data ex_config ex_tokenizer ([0, 0] @ ext) = Some (Inr ds))
   \<and> DataSourceUnsupervised ex_data ex_config ex_tokenizer [0, 0] \<noteq> Some (Inl ZeroDivisionError)
   \<and> DataSourceUnsupervised ex_data ex_config ex_tokenizer ex_tape = Some (Inr ex_ds)
   \<and> map length ex_data = [3]
   \<and> length (priv_segments ex_ds) = 4
   \<and> n_segments (statistics ex_ds) = 4
   \<and> ds_len ex_ds = 4
   \<and> segment_index ex_data 0 2 = 2
   \<and> priv_segments ex_ds ! 2 = [0, 1, 2]
   \<and> priv_segments ex_ds ! 3 = [0, 1, 4]
   \<and> is_next (uttrs (heap ex_ds) ! 2) \<and> \<not> is_next (uttrs (heap ex_ds) ! 4)
   \<and> length (fst (snd (projr (the (for_each (build_segments 5 [0, 1, 2] [0, 1, 2]) [1..<length [0, 1, 2 :: nat]]
                (heap ex_ds, priv_segments ex_ds, ex_tape)))))) = 8"
proof -
  have w: "well_formed ex_config ex_tokenizer ex_data" by code_simp
  have i: "segment_index ex_data 0 2 = 2" by code_simp
  have s2: "priv_segments ex_ds ! 2 = [0, 1, 2]" by code_simp
  have s3: "priv_segments ex_ds ! 3 = [0, 1, 4]" by code_simp
  have sa: "session_addrs 0 ex_data ! 0 = [0, 1, 2]" by code_simp
  have d: "map length ex_data = [3]" by (simp add: ex_data_def)
  have ke: "(0::nat) < length ex_data \<and> (1::nat) \<le> 2 \<and> (2::nat) < length (ex_data ! 0)"
    by (simp add: ex_data_def)
  note t = segment_count [of ex_config ex_tokenizer ex_data]
  have r: "\<exists>ext ds. DataSourceUnsupervised ex_data ex_config ex_tokenizer ([0, 0] @ ext) = Some (Inr ds)"
    using t [of "[0, 0]", THEN conjunct1] w by blast
  have r': "DataSourceUnsupervised ex_data ex_config ex_tokenizer [0, 0] \<noteq> Some (Inl ZeroDivisionError)"
    using t [of "[0, 0]", THEN conjunct1] w by blast
  note u = t [of ex_tape, THEN conjunct2, THEN conjunct1, rule_format, OF ex_constructed]
  have n: "length (priv_segments ex_ds) = 4" "n_segments (statistics ex_ds) = 4" "ds_len ex_ds = 4"
    using u [THEN conjunct1] u [THEN conjunct2, THEN conjunct1]
      u [THEN conjunct2, THEN conjunct2, THEN conjunct1]
    by (simp_all add: ex_data_def)
  note p = u [THEN conjunct2, THEN conjunct2, THEN conjunct2, rule_format, OF ke,
              unfolded Let_def i s2 s3 sa]
  from p have a: "is_next (uttrs (heap ex_ds) ! 2)" by simp
  from p obtain n where "last (priv_segments ex_ds ! 3) = n" "\<not> is_next (uttrs (heap ex_ds) ! n)"
    by auto
  then have a': "\<not> is_next (uttrs (heap ex_ds) ! 4)" by (simp add: s3)
  let ?loop = "for_each (build_segments 5 [0, 1, 2] [0, 1, 2]) [1..<length [0, 1, 2 :: nat]]
                (heap ex_ds, priv_segments ex_ds, ex_tape)"
  have "case ?loop of Some (Inr s') \<Rightarrow> True | _ \<Rightarrow> False" by code_simp
  then obtain s' where lp: "?loop = Some (Inr s')"
    by (auto split: option.splits sum.splits)
  from t [of ex_tape, THEN conjunct2, THEN conjunct2, rule_format, OF lp]
  have "length (fst (snd s')) = 8" using n(1) by simp
  then have l8: "length (fst (snd (projr (the ?loop)))) = 8" unfolding lp by simp
  show ?thesis
    apply (intro conjI)
    apply (rule w, rule r, rule r', rule ex_constructed, rule d, rule n(1), rule n(2), rule n(3),
           rule i, rule s2, rule s3, rule a, rule a', rule l8)
    done
qed

section \<open>A call of \<^verbatim>\<open>next\<close> in an epoch\<close>

lemma list_all2_filter:
  "list_all2 P xs ys \<Longrightarrow> (\<And>x y. P x y \<Longrightarrow> f x = g y) \<Longrightarrow>
   list_all2 P (filter f xs) (filter g ys)"
  by (induction rule: list_all2_induct) auto

lemma list_all2_map_eq:
  "list_all2 (\<lambda>x y. f x = g y) xs ys \<Longrightarrow> map f xs = map g ys"
  by (induction rule: list_all2_induct) auto

lemma epoch_state:
  assumes c: "DataSourceUnsupervised data cfg tok tape = Some (Inr ds0)" and hl: "1 \<le> history_len cfg"
    and ds: "ds = iterate_next calls (epoch_init shuffle rng ds0)"
  shows "\<exists>segs c. segments ds = Some segs \<and> cur_segment_idx ds = Some c \<and> c \<le> length segs
      \<and> length segs = length (priv_segments ds0)
      \<and> segments (epoch_init shuffle rng ds0) = Some segs
      \<and> heap ds = heap (epoch_init shuffle rng ds0)
      \<and> history_len ds = history_len cfg \<and> tokenizer ds = tok
      \<and> list_all2 (view_ok cfg tok data) (map (seg_view (heap ds)) segs) (epoch_tags shuffle rng data)"
proof -
  let ?ds1 = "epoch_init shuffle rng ds0"
  from epoch_views [OF c hl, of shuffle rng] obtain segs where
    e: "segments ?ds1 = Some segs" "cur_segment_idx ?ds1 = Some 0"
    and o: "history_len ?ds1 = history_len cfg" "tokenizer ?ds1 = tok"
      "length segs = length (priv_segments ds0)"
    and l: "list_all2 (view_ok cfg tok data) (map (seg_view (heap ?ds1)) segs) (epoch_tags shuffle rng data)"
    by blast
  from iterate_next_state [OF e, of calls] obtain c' where
    c': "iterate_next calls ?ds1 = ?ds1\<lparr>cur_segment_idx := Some c'\<rparr>" "c' \<le> length segs" by auto
  have d: "ds = ?ds1\<lparr>cur_segment_idx := Some c'\<rparr>" using ds c'(1) by simp
  have "segments ds = Some segs" "cur_segment_idx ds = Some c'" "heap ds = heap ?ds1"
    "history_len ds = history_len cfg" "tokenizer ds = tok"
    unfolding d using e o by simp_all
  then show ?thesis using c'(2) o(3) e(1) l by auto
qed

lemma view_ok_Some:
  "view_ok cfg tok data v t \<Longrightarrow>
   \<exists>w. v = Some w \<and> ref_ids w \<noteq> None \<and> int (length (ctx_ids w)) \<le> history_len cfg
      \<and> length (ctx_floors w) = length (ctx_ids w)"
  by (auto simp: view_ok_def)

lemma epoch_call:
  assumes c: "DataSourceUnsupervised data cfg tok tape = Some (Inr ds0)" and hl: "1 \<le> history_len cfg"
    and ds: "ds = iterate_next calls (epoch_init shuffle rng ds0)"
    and s: "segments ds = Some segs" and cu: "cur_segment_idx ds = Some c" and lt: "c < length segs"
  shows "\<exists>n ws ts. c + n \<le> length segs
      \<and> ws = accepted p (map (\<lambda>seg. the (seg_view (heap ds) seg)) (take n (drop c segs)))
      \<and> ts = take n (drop c (epoch_tags shuffle rng data))
      \<and> list_all2 (view_ok cfg tok data) (map (seg_view (heap ds)) (take n (drop c segs))) ts
      \<and> snd (ds_next bs p ds) = ds\<lparr>cur_segment_idx := Some (c + n)\<rparr>
      \<and> (c + n = length segs \<or> int (length ws) = bs)
      \<and> (0 \<le> bs \<longrightarrow> int (length ws) \<le> bs)
      \<and> fst (ds_next bs p ds) =
            (if ws = [] then Inl ZeroDivisionError
             else Inr (Some (batch_of tok (history_len cfg) ws)))"
proof -
  from epoch_state [OF c hl ds] s cu have
    o: "history_len ds = history_len cfg" "tokenizer ds = tok"
    and l: "list_all2 (view_ok cfg tok data) (map (seg_view (heap ds)) segs) (epoch_tags shuffle rng data)"
    by auto
  have vs: "\<forall>seg \<in> set (drop c segs). \<exists>w. seg_view (heap ds) seg = Some w \<and> ref_ids w \<noteq> None
                \<and> int (length (ctx_ids w)) \<le> history_len ds
                \<and> length (ctx_floors w) = length (ctx_ids w)"
  proof
    fix seg assume "seg \<in> set (drop c segs)"
    then have "seg \<in> set segs" by (rule in_set_dropD)
    then obtain i where i: "i < length segs" "segs ! i = seg" by (auto simp: in_set_conv_nth)
    have "view_ok cfg tok data (map (seg_view (heap ds)) segs ! i) (epoch_tags shuffle rng data ! i)"
      using list_all2_nthD [OF l, of i] i(1) by simp
    then have "view_ok cfg tok data (seg_view (heap ds) seg) (epoch_tags shuffle rng data ! i)"
      using i by simp
    then obtain t where "view_ok cfg tok data (seg_view (heap ds) seg) t" ..
    from view_ok_Some [OF this] show "\<exists>w. seg_view (heap ds) seg = Some w \<and> ref_ids w \<noteq> None
                \<and> int (length (ctx_ids w)) \<le> history_len ds
                \<and> length (ctx_floors w) = length (ctx_ids w)"
      by (simp add: o)
  qed
  have hl': "1 \<le> history_len ds" using hl o by simp
  from ds_next_batch [OF s cu lt hl' vs, of p bs] obtain n ws where
    n: "c + n \<le> length segs"
    and ws: "ws = accepted p (map (\<lambda>seg. the (seg_view (heap ds) seg)) (take n (drop c segs)))"
    and sn: "snd (ds_next bs p ds) = ds\<lparr>cur_segment_idx := Some (c + n)\<rparr>"
    and st: "c + n = length segs \<or> int (length ws) = bs"
    and bd: "0 \<le> bs \<longrightarrow> int (length ws) \<le> bs"
    and ft: "fst (ds_next bs p ds) =
            (if ws = [] then Inl ZeroDivisionError
             else Inr (Some (batch_of (tokenizer ds) (history_len ds) ws)))"
    by blast
  have "list_all2 (view_ok cfg tok data) (take n (drop c (map (seg_view (heap ds)) segs)))
          (take n (drop c (epoch_tags shuffle rng data)))"
    by (intro list_all2_takeI list_all2_dropI l)
  then have l': "list_all2 (view_ok cfg tok data) (map (seg_view (heap ds)) (take n (drop c segs)))
          (take n (drop c (epoch_tags shuffle rng data)))"
    by (simp add: take_map drop_map)
  show ?thesis using n ws l' sn st bd ft unfolding o by blast
qed

lemma seg_view_Some:
  "seg_view st seg = Some w \<Longrightarrow>
   seg \<noteq> [] \<and> tgt_is_next w = is_next (uttrs st ! last seg)
   \<and> tgt_ids w = token_ids (uttrs st ! last seg)
   \<and> tgt_floor w = floor_id (uttrs st ! last seg)
   \<and> ctx_ids w = map (\<lambda>a. token_ids (uttrs st ! a)) (butlast seg)
   \<and> ctx_floors w = map (\<lambda>a. floor_id (uttrs st ! a)) (butlast seg)"
  by (auto simp: seg_view_def split: if_splits)

lemma view_ok_seg:
  assumes "view_ok cfg tok data (seg_view st seg) t"
  shows "is_next (uttrs st ! last seg) = snd (snd t)"
    and "the (ref_ids (the (seg_view st seg))) = raw_token_ids cfg tok (data ! fst t ! fst (snd t))"
    and "tgt_is_next (the (seg_view st seg)) = is_next (uttrs st ! last seg)"
    and "tgt_ids (the (seg_view st seg)) = token_ids (uttrs st ! last seg)"
    and "tgt_floor (the (seg_view st seg)) = floor_id (uttrs st ! last seg)"
    and "ctx_ids (the (seg_view st seg)) = map (\<lambda>a. token_ids (uttrs st ! a)) (butlast seg)"
    and "ctx_floors (the (seg_view st seg)) = map (\<lambda>a. floor_id (uttrs st ! a)) (butlast seg)"
    and "1 \<le> length (butlast seg)" and "int (length (butlast seg)) \<le> history_len cfg"
    and "map (\<lambda>a. token_ids (uttrs st ! a)) (butlast seg) =
           map (\<lambda>j. raw_token_ids cfg tok (data ! fst t ! j))
               [nat (max 0 (int (fst (snd t)) - history_len cfg))..<fst (snd t)]"
proof -
  from assms obtain w where w: "seg_view st seg = Some w" and t: "tgt_is_next w = snd (snd t)"
    and r: "ref_ids w = Some (raw_token_ids cfg tok (data ! fst t ! fst (snd t)))"
    and cx: "ctx_ids w = map (\<lambda>j. raw_token_ids cfg tok (data ! fst t ! j))
                         [nat (max 0 (int (fst (snd t)) - history_len cfg))..<fst (snd t)]"
    and l: "1 \<le> length (ctx_ids w)" "int (length (ctx_ids w)) \<le> history_len cfg"
    unfolding view_ok_def by blast
  note s = seg_view_Some [OF w]
  show "is_next (uttrs st ! last seg) = snd (snd t)" using s t by simp
  show "the (ref_ids (the (seg_view st seg))) = raw_token_ids cfg tok (data ! fst t ! fst (snd t))"
    using w r by simp
  show "tgt_is_next (the (seg_view st seg)) = is_next (uttrs st ! last seg)" using w s by simp
  show "tgt_ids (the (seg_view st seg)) = token_ids (uttrs st ! last seg)" using w s by simp
  show "tgt_floor (the (seg_view st seg)) = floor_id (uttrs st ! last seg)" using w s by simp
  show "ctx_ids (the (seg_view st seg)) = map (\<lambda>a. token_ids (uttrs st ! a)) (butlast seg)"
    using w s by simp
  show "ctx_floors (the (seg_view st seg)) = map (\<lambda>a. floor_id (uttrs st ! a)) (butlast seg)"
    using w s by simp
  have e: "ctx_ids w = map (\<lambda>a. token_ids (uttrs st ! a)) (butlast seg)" using s by simp
  have "length (ctx_ids w) = length (butlast seg)" unfolding e by simp
  then show "1 \<le> length (butlast seg)" "int (length (butlast seg)) \<le> history_len cfg"
    using l by simp_all
  show "map (\<lambda>a. token_ids (uttrs st ! a)) (butlast seg) =
           map (\<lambda>j. raw_token_ids cfg tok (data ! fst t ! j))
               [nat (max 0 (int (fst (snd t)) - history_len cfg))..<fst (snd t)]"
    using e cx by simp
qed

text \<open>
  A call of \<^verbatim>\<open>next\<close> that returns a batch, at any point of an epoch: it consumes \<open>n\<close>
  segments from the cursor on, and the batch is made of the consumed segments that are
  not skipped.
\<close>

lemma epoch_batch:
  assumes c: "DataSourceUnsupervised data cfg tok tape = Some (Inr ds0)" and hl: "1 \<le> history_len cfg"
    and ds: "ds = iterate_next calls (epoch_init shuffle rng ds0)"
    and r: "ds_next bs p ds = (Inr (Some b), ds')"
  shows "\<exists>segs c n taken. segments ds = Some segs
      \<and> segments (epoch_init shuffle rng ds0) = Some segs
      \<and> length segs = length (priv_segments ds0)
      \<and> heap ds = heap (epoch_init shuffle rng ds0)
      \<and> cur_segment_idx ds = Some c \<and> c + n \<le> length segs
      \<and> ds' = ds\<lparr>cur_segment_idx := Some (c + n)\<rparr>
      \<and> list_all2 (\<lambda>seg t. view_ok cfg tok data (seg_view (heap ds) seg) t)
            (take n (drop c segs)) (take n (drop c (epoch_tags shuffle rng data)))
      \<and> taken = filter (\<lambda>seg. \<not> (p \<and> is_next (uttrs (heap ds) ! last seg))) (take n (drop c segs))
      \<and> taken \<noteq> []
      \<and> (c + n = length segs \<or> int (length taken) = bs)
      \<and> (0 \<le> bs \<longrightarrow> int (length taken) \<le> bs)
      \<and> b = batch_of tok (history_len cfg) (map (\<lambda>seg. the (seg_view (heap ds) seg)) taken)"
proof -
  from epoch_state [OF c hl ds] obtain segs c where
    s: "segments ds = Some segs" and cu: "cur_segment_idx ds = Some c" and le: "c \<le> length segs"
    and ln: "length segs = length (priv_segments ds0)"
    and s0: "segments (epoch_init shuffle rng ds0) = Some segs"
    and hp: "heap ds = heap (epoch_init shuffle rng ds0)"
    by blast
  have f: "fst (ds_next bs p ds) = Inr (Some b)" and sn: "snd (ds_next bs p ds) = ds'"
    using r by simp_all
  have "c \<noteq> length segs" using ds_next_None_iff [OF s cu, of bs p] f by auto
  then have lt: "c < length segs" using le by simp
  from epoch_call [OF c hl ds s cu lt, of p bs] obtain n ws where
    n: "c + n \<le> length segs"
    and ws: "ws = accepted p (map (\<lambda>seg. the (seg_view (heap ds) seg)) (take n (drop c segs)))"
    and l: "list_all2 (view_ok cfg tok data) (map (seg_view (heap ds)) (take n (drop c segs)))
              (take n (drop c (epoch_tags shuffle rng data)))"
    and sn': "snd (ds_next bs p ds) = ds\<lparr>cur_segment_idx := Some (c + n)\<rparr>"
    and st: "c + n = length segs \<or> int (length ws) = bs"
    and bd: "0 \<le> bs \<longrightarrow> int (length ws) \<le> bs"
    and ft: "fst (ds_next bs p ds) =
            (if ws = [] then Inl ZeroDivisionError
             else Inr (Some (batch_of tok (history_len cfg) ws)))"
    by blast
  let ?cons = "take n (drop c segs)"
  let ?taken = "filter (\<lambda>seg. \<not> (p \<and> is_next (uttrs (heap ds) ! last seg))) ?cons"
  have l2: "list_all2 (\<lambda>seg t. view_ok cfg tok data (seg_view (heap ds) seg) t)
              ?cons (take n (drop c (epoch_tags shuffle rng data)))"
    using l by (simp add: list_all2_map1)
  have ev: "\<And>seg. seg \<in> set ?cons \<Longrightarrow>
      tgt_is_next (the (seg_view (heap ds) seg)) = is_next (uttrs (heap ds) ! last seg)"
  proof -
    fix seg assume "seg \<in> set ?cons"
    then obtain i where i: "i < length ?cons" "?cons ! i = seg" by (auto simp: in_set_conv_nth)
    from list_all2_nthD [OF l2 i(1)] i(2)
    have "view_ok cfg tok data (seg_view (heap ds) seg)
            (take n (drop c (epoch_tags shuffle rng data)) ! i)" by simp
    then show "tgt_is_next (the (seg_view (heap ds) seg)) = is_next (uttrs (heap ds) ! last seg)"
      by (rule view_ok_seg(3))
  qed
  have "ws = map (\<lambda>seg. the (seg_view (heap ds) seg))
               (filter (\<lambda>seg. \<not> (p \<and> tgt_is_next (the (seg_view (heap ds) seg)))) ?cons)"
    unfolding ws accepted_def filter_map comp_def ..
  also have "filter (\<lambda>seg. \<not> (p \<and> tgt_is_next (the (seg_view (heap ds) seg)))) ?cons = ?taken"
    by (rule filter_cong) (simp_all add: ev)
  finally have wt: "ws = map (\<lambda>seg. the (seg_view (heap ds) seg)) ?taken" .
  then have lw: "length ws = length ?taken" by simp
  have ne: "ws \<noteq> []" using ft f by (auto split: if_splits)
  then have b: "b = batch_of tok (history_len cfg) ws" using ft f by simp
  have tne: "?taken \<noteq> []" using ne wt by auto
  have d': "ds' = ds\<lparr>cur_segment_idx := Some (c + n)\<rparr>" using sn sn' by simp
  have st': "c + n = length segs \<or> int (length ?taken) = bs" using st lw by simp
  have bd': "0 \<le> bs \<longrightarrow> int (length ?taken) \<le> bs" using bd lw by simp
  have b': "b = batch_of tok (history_len cfg) (map (\<lambda>seg. the (seg_view (heap ds) seg)) ?taken)"
    using b wt by simp
  show ?thesis
    apply (rule exI [of _ segs], rule exI [of _ c], rule exI [of _ n], rule exI [of _ ?taken])
    apply (intro conjI)
    apply (rule s, rule s0, rule ln, rule hp, rule cu, rule n, rule d', rule l2, rule refl,
           rule tne, rule st', rule bd', rule b')
    done
qed

lemma list_all2_filter_len:
  "list_all2 P xs ys \<Longrightarrow> (\<And>x y. P x y \<Longrightarrow> f x = g y) \<Longrightarrow>
   length (filter f xs) = length (filter g ys)"
  by (induction rule: list_all2_induct) auto

lemma list_all2_map_eq':
  "list_all2 P xs ys \<Longrightarrow> (\<And>x y. P x y \<Longrightarrow> f x = g y) \<Longrightarrow> map f xs = map g ys"
  by (induction rule: list_all2_induct) auto

lemma list_all2_map_left:
  "list_all2 P xs ys \<Longrightarrow> (\<And>x y. P x y \<Longrightarrow> f x = g x) \<Longrightarrow> map f xs = map g xs"
  by (induction rule: list_all2_induct) auto

lemma batch_of_fields:
  "X (batch_of tok hl ws) =
     map (\<lambda>w. map (pad_row tok (fold max (map length
                      (concat (map (\<lambda>w. slots hl (empty_ids tok) (ctx_ids w)) ws))) 0))
                    (slots hl (empty_ids tok) (ctx_ids w))) ws"
  "X_floor (batch_of tok hl ws) = map (\<lambda>w. slots hl 0 (ctx_floors w)) ws"
  "Y (batch_of tok hl ws) = convert_batch_ids_to_tensor tok (map tgt_ids ws)"
  "Y_ref (batch_of tok hl ws) = convert_batch_ids_to_tensor tok (map (\<lambda>w. the (ref_ids w)) ws)"
  "Y_floor (batch_of tok hl ws) = map tgt_floor ws"
  "Y_is_next (batch_of tok hl ws) = map tgt_is_next ws"
  by (simp_all add: batch_of_def)

text \<open>
  Claim C7. A call \<^verbatim>\<open>next(batch_size, return_paired_Y=True)\<close> that returns a batch, at any
  point of an epoch (shuffled or not), moves the cursor over \<open>n\<close> segments. Among these
  consumed segments the ones whose target has \<^verbatim>\<open>is_next\<close> true (the segments at a
  positive tag) contribute nothing: the batch has one sample for each consumed segment
  with a negative target, in order, and the loop stopped at the end of the segment list
  or with \<^verbatim>\<open>batch_size\<close> negatives. \<^verbatim>\<open>Y\<close> holds the token ids of the negative targets,
  every entry of \<^verbatim>\<open>Y_is_next\<close> is false, and the entry of \<^verbatim>\<open>Y_ref\<close> for a negative at
  the tag \<open>(k, e, False)\<close> is the token ids of the true next utterance \<open>u[e]\<close> of session
  \<open>k\<close>, the session and end index whose window is the context of that negative segment.
\<close>

theorem paired_batches:
  assumes "DataSourceUnsupervised data cfg tok tape = Some (Inr ds0)" and "1 \<le> history_len cfg"
    and "ds = iterate_next calls (epoch_init shuffle rng ds0)"
    and "ds_next bs True ds = (Inr (Some b), ds')"
  shows "\<exists>segs c n. segments ds = Some segs \<and> cur_segment_idx ds = Some c
     \<and> c + n \<le> length segs \<and> ds' = ds\<lparr>cur_segment_idx := Some (c + n)\<rparr>
     \<and> (let consumed = take n (drop c segs);
            tags = take n (drop c (epoch_tags shuffle rng data));
            negatives = filter (\<lambda>seg. \<not> is_next (uttrs (heap ds) ! last seg)) consumed;
            negative_tags = filter (\<lambda>t. \<not> snd (snd t)) tags
        in length consumed = n \<and> length tags = n
           \<and> (c + n = length segs \<or> int (length negatives) = bs)
           \<and> map (\<lambda>seg. is_next (uttrs (heap ds) ! last seg)) consumed = map (\<lambda>t. snd (snd t)) tags
           \<and> length negative_tags = length negatives
           \<and> map (\<lambda>seg. map (\<lambda>a. token_ids (uttrs (heap ds) ! a)) (butlast seg)) negatives =
               map (\<lambda>t. map (\<lambda>j. raw_token_ids cfg tok (data ! fst t ! j))
                             [nat (max 0 (int (fst (snd t)) - history_len cfg))..<fst (snd t)])
                   negative_tags
           \<and> Y b = convert_batch_ids_to_tensor tok
                      (map (\<lambda>seg. token_ids (uttrs (heap ds) ! last seg)) negatives)
           \<and> length (X b) = length negatives \<and> length (Y b) = length negatives
           \<and> length (Y_ref b) = length negatives
           \<and> Y_is_next b = replicate (length negatives) False
           \<and> Y_ref b = convert_batch_ids_to_tensor tok
                      (map (\<lambda>t. raw_token_ids cfg tok (data ! fst t ! fst (snd t))) negative_tags))"
proof -
  from epoch_batch [OF assms] obtain segs c n taken where
    s: "segments ds = Some segs" and cu: "cur_segment_idx ds = Some c"
    and n: "c + n \<le> length segs" and d': "ds' = ds\<lparr>cur_segment_idx := Some (c + n)\<rparr>"
    and l: "list_all2 (\<lambda>seg t. view_ok cfg tok data (seg_view (heap ds) seg) t)
            (take n (drop c segs)) (take n (drop c (epoch_tags shuffle rng data)))"
    and stp: "c + n = length segs \<or> int (length taken) = bs"
    and tk: "taken = filter (\<lambda>seg. \<not> (True \<and> is_next (uttrs (heap ds) ! last seg))) (take n (drop c segs))"
    and b: "b = batch_of tok (history_len cfg) (map (\<lambda>seg. the (seg_view (heap ds) seg)) taken)"
    by blast
  let ?st = "heap ds"
  let ?cons = "take n (drop c segs)"
  let ?tags = "take n (drop c (epoch_tags shuffle rng data))"
  let ?negs = "filter (\<lambda>seg. \<not> is_next (uttrs ?st ! last seg)) ?cons"
  let ?ntags = "filter (\<lambda>t. \<not> snd (snd t)) ?tags"
  let ?V = "\<lambda>seg t. view_ok cfg tok data (seg_view ?st seg) t"
  have tk': "taken = ?negs" using tk by simp
  have lc: "length ?cons = n" using n by simp
  have lt: "length ?tags = n" using list_all2_lengthD [OF l] lc by simp
  have pol: "map (\<lambda>seg. is_next (uttrs ?st ! last seg)) ?cons = map (\<lambda>t. snd (snd t)) ?tags"
    by (rule list_all2_map_eq' [OF l]) (rule view_ok_seg(1))
  have ln: "list_all2 ?V ?negs ?ntags"
    by (rule list_all2_filter [OF l]) (simp add: view_ok_seg(1))
  have lnt: "length ?ntags = length ?negs" using list_all2_lengthD [OF ln] by simp
  have cx: "map (\<lambda>seg. map (\<lambda>a. token_ids (uttrs ?st ! a)) (butlast seg)) ?negs =
               map (\<lambda>t. map (\<lambda>j. raw_token_ids cfg tok (data ! fst t ! j))
                             [nat (max 0 (int (fst (snd t)) - history_len cfg))..<fst (snd t)])
                   ?ntags"
    by (rule list_all2_map_eq' [OF ln]) (rule view_ok_seg(10))
  have ty: "map tgt_ids (map (\<lambda>seg. the (seg_view ?st seg)) ?negs)
          = map (\<lambda>seg. token_ids (uttrs ?st ! last seg)) ?negs"
    unfolding map_map comp_def
    by (rule list_all2_map_left [OF ln]) (rule view_ok_seg(4))
  have tn: "map tgt_is_next (map (\<lambda>seg. the (seg_view ?st seg)) ?negs)
          = map (\<lambda>seg. is_next (uttrs ?st ! last seg)) ?negs"
    unfolding map_map comp_def
    by (rule list_all2_map_left [OF ln]) (rule view_ok_seg(3))
  have "map (\<lambda>seg. is_next (uttrs ?st ! last seg)) ?negs = map (\<lambda>seg. False) ?negs"
    by (rule map_cong) simp_all
  then have tn': "map tgt_is_next (map (\<lambda>seg. the (seg_view ?st seg)) ?negs)
          = replicate (length ?negs) False"
    using tn by (simp add: map_replicate_const)
  have tr: "map (\<lambda>w. the (ref_ids w)) (map (\<lambda>seg. the (seg_view ?st seg)) ?negs)
          = map (\<lambda>t. raw_token_ids cfg tok (data ! fst t ! fst (snd t))) ?ntags"
    unfolding map_map comp_def
    by (rule list_all2_map_eq' [OF ln]) (rule view_ok_seg(2))
  have y: "Y b = convert_batch_ids_to_tensor tok (map (\<lambda>seg. token_ids (uttrs ?st ! last seg)) ?negs)"
    unfolding b tk' batch_of_fields ty ..
  have yn: "Y_is_next b = replicate (length ?negs) False"
    unfolding b tk' batch_of_fields tn' ..
  have yr: "Y_ref b = convert_batch_ids_to_tensor tok
                      (map (\<lambda>t. raw_token_ids cfg tok (data ! fst t ! fst (snd t))) ?ntags)"
    unfolding b tk' batch_of_fields tr ..
  have lx: "length (X b) = length ?negs" unfolding b tk' batch_of_fields by simp
  have ly: "length (Y b) = length ?negs" unfolding y length_tensor by simp
  have lr: "length (Y_ref b) = length ?negs" unfolding yr length_tensor using lnt by simp
  have "length ?cons = n \<and> length ?tags = n
           \<and> (c + n = length segs \<or> int (length ?negs) = bs)
           \<and> map (\<lambda>seg. is_next (uttrs (heap ds) ! last seg)) ?cons = map (\<lambda>t. snd (snd t)) ?tags
           \<and> length ?ntags = length ?negs
           \<and> map (\<lambda>seg. map (\<lambda>a. token_ids (uttrs (heap ds) ! a)) (butlast seg)) ?negs =
               map (\<lambda>t. map (\<lambda>j. raw_token_ids cfg tok (data ! fst t ! j))
                             [nat (max 0 (int (fst (snd t)) - history_len cfg))..<fst (snd t)])
                   ?ntags
           \<and> Y b = convert_batch_ids_to_tensor tok
                      (map (\<lambda>seg. token_ids (uttrs (heap ds) ! last seg)) ?negs)
           \<and> length (X b) = length ?negs \<and> length (Y b) = length ?negs
           \<and> length (Y_ref b) = length ?negs
           \<and> Y_is_next b = replicate (length ?negs) False
           \<and> Y_ref b = convert_batch_ids_to_tensor tok
                      (map (\<lambda>t. raw_token_ids cfg tok (data ! fst t ! fst (snd t))) ?ntags)"
    by (intro conjI lc lt stp [unfolded tk'] pol lnt cx y lx ly lr yn yr)
  then have body: "(let consumed = take n (drop c segs);
            tags = take n (drop c (epoch_tags shuffle rng data));
            negatives = filter (\<lambda>seg. \<not> is_next (uttrs (heap ds) ! last seg)) consumed;
            negative_tags = filter (\<lambda>t. \<not> snd (snd t)) tags
        in length consumed = n \<and> length tags = n
           \<and> (c + n = length segs \<or> int (length negatives) = bs)
           \<and> map (\<lambda>seg. is_next (uttrs (heap ds) ! last seg)) consumed = map (\<lambda>t. snd (snd t)) tags
           \<and> length negative_tags = length negatives
           \<and> map (\<lambda>seg. map (\<lambda>a. token_ids (uttrs (heap ds) ! a)) (butlast seg)) negatives =
               map (\<lambda>t. map (\<lambda>j. raw_token_ids cfg tok (data ! fst t ! j))
                             [nat (max 0 (int (fst (snd t)) - history_len cfg))..<fst (snd t)])
                   negative_tags
           \<and> Y b = convert_batch_ids_to_tensor tok
                      (map (\<lambda>seg. token_ids (uttrs (heap ds) ! last seg)) negatives)
           \<and> length (X b) = length negatives \<and> length (Y b) = length negatives
           \<and> length (Y_ref b) = length negatives
           \<and> Y_is_next b = replicate (length negatives) False
           \<and> Y_ref b = convert_batch_ids_to_tensor tok
                      (map (\<lambda>t. raw_token_ids cfg tok (data ! fst t ! fst (snd t))) negative_tags))"
    unfolding Let_def .
  show ?thesis
    apply (rule exI [of _ segs], rule exI [of _ c], rule exI [of _ n])
    apply (intro conjI)
    apply (rule s, rule cu, rule n, rule d', rule body)
    done
qed


theorem paired_batches_witness:
  "map_sum id (map_option Y_is_next) (fst (ds_next 4 True (epoch_init False ex_rng ex_ds)))
      = Inr (Some [False, False])
   \<and> map_sum id (map_option Y_ref) (fst (ds_next 4 True (epoch_init False ex_rng ex_ds)))
      = Inr (Some [[1, 15, 15, 2, 0], [1, 13, 13, 13, 2]])
   \<and> cur_segment_idx (snd (ds_next 4 True (epoch_init False ex_rng ex_ds))) = Some 4"
proof -
  let ?ds = "epoch_init False ex_rng ex_ds"
  let ?r = "ds_next 4 True ?ds"
  have "case fst ?r of Inr (Some b) \<Rightarrow> True | _ \<Rightarrow> False" by code_simp
  then obtain b where fb: "fst ?r = Inr (Some b)"
    by (auto split: sum.splits option.splits)
  then have r: "?r = (Inr (Some b), snd ?r)" by (simp add: prod_eq_iff)
  have hl: "1 \<le> history_len ex_config" by (simp add: ex_config_def)
  have it: "?ds = iterate_next [] ?ds" by simp
  have sg: "segments ?ds = Some [[0, 1], [0, 3], [0, 1, 2], [0, 1, 4]]" by code_simp
  have c0: "cur_segment_idx ?ds = Some 0" by code_simp
  have c4: "cur_segment_idx (snd ?r) = Some 4" by code_simp
  have ng: "length (filter (\<lambda>seg. \<not> is_next (uttrs (heap ?ds) ! last seg))
              (take 4 (drop 0 [[0, 1], [0, 3], [0, 1, 2], [0, 1, 4]]))) = 2" by code_simp
  have rf: "convert_batch_ids_to_tensor ex_tokenizer
              (map (\<lambda>t. raw_token_ids ex_config ex_tokenizer (ex_data ! fst t ! fst (snd t)))
                 (filter (\<lambda>t. \<not> snd (snd t)) (take 4 (drop 0 (epoch_tags False ex_rng ex_data)))))
            = [[1, 15, 15, 2, 0], [1, 13, 13, 13, 2]]" by code_simp
  from paired_batches [OF ex_constructed hl it r] obtain segs c n where
    s: "segments ?ds = Some segs" and cu: "cur_segment_idx ?ds = Some c"
    and d': "snd ?r = ?ds\<lparr>cur_segment_idx := Some (c + n)\<rparr>"
    and yn: "Y_is_next b = replicate (length (filter (\<lambda>seg. \<not> is_next (uttrs (heap ?ds) ! last seg))
                (take n (drop c segs)))) False"
    and yr: "Y_ref b = convert_batch_ids_to_tensor ex_tokenizer
              (map (\<lambda>t. raw_token_ids ex_config ex_tokenizer (ex_data ! fst t ! fst (snd t)))
                 (filter (\<lambda>t. \<not> snd (snd t)) (take n (drop c (epoch_tags False ex_rng ex_data)))))"
    unfolding Let_def by blast
  have segs: "segs = [[0, 1], [0, 3], [0, 1, 2], [0, 1, 4]]" using s sg by simp
  have c: "c = 0" using cu c0 by simp
  have "cur_segment_idx (snd ?r) = Some (c + n)" by (subst d') simp
  then have n: "n = 4" using c4 c by simp
  have "Y_is_next b = [False, False]" using yn unfolding segs c n ng by (simp add: numeral_2_eq_2)
  moreover have "Y_ref b = [[1, 15, 15, 2, 0], [1, 13, 13, 13, 2]]" using yr unfolding c n rf .
  ultimately show ?thesis using fb c4 by simp
qed

lemma slots_eq:
  "int (length ctx) \<le> hl \<Longrightarrow> slots hl pad ctx = ctx @ replicate (nat hl - length ctx) pad"
proof -
  assume "int (length ctx) \<le> hl"
  then have "nat (hl - int (length ctx + 1) + 1) = nat hl - length ctx" by simp
  then show ?thesis by (simp only: slots_def)
qed

lemma list_all2_left_mem:
  "list_all2 P xs ys \<Longrightarrow> x \<in> set xs \<Longrightarrow> \<exists>y. P x y"
  by (induction rule: list_all2_induct) auto

text \<open>
  Claim C4, with the placeholders after the context. For a call of \<^verbatim>\<open>next\<close> that
  returns a batch, at any point of an epoch, \<open>taken\<close> are the segments put into the
  batch. \<^verbatim>\<open>X\<close>, \<^verbatim>\<open>X_floor\<close> and \<^verbatim>\<open>Y\<close> have one entry for each of them. The entry of
  \<^verbatim>\<open>X_floor\<close> for a segment is the floor ids of its context utterances (all but the
  last utterance, between \<open>1\<close> and \<^verbatim>\<open>history_len\<close> of them) in order, followed by the
  floor id \<open>0\<close> of the placeholder until there are \<^verbatim>\<open>history_len\<close> slots; the entry of
  \<^verbatim>\<open>X\<close> is the token ids of the context utterances in order, followed by the ids of the
  empty utterance (tokenized, with bos and eos) until there are \<^verbatim>\<open>history_len\<close> slots,
  every slot padded with the pad id to \<open>seq_len\<close>, the length of the longest id sequence
  among the slots of the batch. So \<^verbatim>\<open>X\<close> has the shape batch \<open>\<times>\<close> \<^verbatim>\<open>history_len\<close> \<open>\<times>\<close>
  \<open>seq_len\<close>.
\<close>

theorem context_slots:
  assumes "DataSourceUnsupervised data cfg tok tape = Some (Inr ds0)" and "1 \<le> history_len cfg"
    and "ds = iterate_next calls (epoch_init shuffle rng ds0)"
    and "ds_next bs p ds = (Inr (Some b), ds')"
  shows "\<exists>segs c n. segments ds = Some segs \<and> cur_segment_idx ds = Some c
     \<and> c + n \<le> length segs \<and> ds' = ds\<lparr>cur_segment_idx := Some (c + n)\<rparr>
     \<and> (let taken = filter (\<lambda>seg. \<not> (p \<and> is_next (uttrs (heap ds) ! last seg)))
                        (take n (drop c segs));
            hl = nat (history_len cfg);
            ids = (\<lambda>seg. map (\<lambda>a. token_ids (uttrs (heap ds) ! a)) (butlast seg)
                          @ replicate (hl - length (butlast seg)) (empty_ids tok));
            floors = (\<lambda>seg. map (\<lambda>a. floor_id (uttrs (heap ds) ! a)) (butlast seg)
                          @ replicate (hl - length (butlast seg)) 0);
            seq_len = fold max (map length (concat (map ids taken))) 0
        in length (X b) = length taken \<and> length (X_floor b) = length taken
           \<and> length (Y b) = length taken
           \<and> (\<forall>i<length taken.
                 1 \<le> length (butlast (taken ! i)) \<and> length (butlast (taken ! i)) \<le> hl
                 \<and> X_floor b ! i = floors (taken ! i)
                 \<and> X b ! i = map (pad_row tok seq_len) (ids (taken ! i))
                 \<and> length (X b ! i) = hl \<and> length (X_floor b ! i) = hl
                 \<and> (\<forall>row \<in> set (X b ! i). length row = seq_len)))"
proof -
  from epoch_batch [OF assms] obtain segs c n taken where
    s: "segments ds = Some segs" and cu: "cur_segment_idx ds = Some c"
    and n: "c + n \<le> length segs" and d': "ds' = ds\<lparr>cur_segment_idx := Some (c + n)\<rparr>"
    and l: "list_all2 (\<lambda>seg t. view_ok cfg tok data (seg_view (heap ds) seg) t)
            (take n (drop c segs)) (take n (drop c (epoch_tags shuffle rng data)))"
    and tk: "taken = filter (\<lambda>seg. \<not> (p \<and> is_next (uttrs (heap ds) ! last seg))) (take n (drop c segs))"
    and b: "b = batch_of tok (history_len cfg) (map (\<lambda>seg. the (seg_view (heap ds) seg)) taken)"
    by blast
  let ?st = "heap ds"
  let ?V = "\<lambda>seg. the (seg_view ?st seg)"
  let ?hl = "nat (history_len cfg)"
  let ?ids = "\<lambda>seg. map (\<lambda>a. token_ids (uttrs ?st ! a)) (butlast seg)
                          @ replicate (?hl - length (butlast seg)) (empty_ids tok)"
  let ?floors = "\<lambda>seg. map (\<lambda>a. floor_id (uttrs ?st ! a)) (butlast seg)
                          @ replicate (?hl - length (butlast seg)) (0::nat)"
  let ?W = "fold max (map length (concat (map ?ids taken))) 0"
  have mem: "ctx_ids (?V seg) = map (\<lambda>a. token_ids (uttrs ?st ! a)) (butlast seg)
        \<and> ctx_floors (?V seg) = map (\<lambda>a. floor_id (uttrs ?st ! a)) (butlast seg)
        \<and> 1 \<le> length (butlast seg) \<and> int (length (butlast seg)) \<le> history_len cfg"
    if "seg \<in> set taken" for seg
  proof -
    from that have "seg \<in> set (take n (drop c segs))" unfolding tk by simp
    from list_all2_left_mem [OF l this] obtain t where
      v: "view_ok cfg tok data (seg_view ?st seg) t" by blast
    show ?thesis
      using view_ok_seg(6) [OF v] view_ok_seg(7) [OF v] view_ok_seg(8) [OF v] view_ok_seg(9) [OF v]
      by simp
  qed
  have si: "slots (history_len cfg) (empty_ids tok) (ctx_ids (?V seg)) = ?ids seg"
    if "seg \<in> set taken" for seg
  proof -
    note m = mem [OF that]
    have "slots (history_len cfg) (empty_ids tok) (map (\<lambda>a. token_ids (uttrs ?st ! a)) (butlast seg))
          = ?ids seg"
      by (subst slots_eq) (use m in simp_all)
    then show ?thesis using m by simp
  qed
  have sf: "slots (history_len cfg) 0 (ctx_floors (?V seg)) = ?floors seg"
    if "seg \<in> set taken" for seg
  proof -
    note m = mem [OF that]
    have "slots (history_len cfg) 0 (map (\<lambda>a. floor_id (uttrs ?st ! a)) (butlast seg))
          = ?floors seg"
      by (subst slots_eq) (use m in simp_all)
    then show ?thesis using m by simp
  qed
  have mi: "map (\<lambda>w. slots (history_len cfg) (empty_ids tok) (ctx_ids w)) (map ?V taken)
          = map ?ids taken"
    unfolding map_map comp_def by (rule map_cong [OF refl]) (rule si)
  have x: "X b = map (\<lambda>seg. map (pad_row tok ?W) (?ids seg)) taken"
  proof -
    have "X b = map (\<lambda>w. map (pad_row tok ?W) (slots (history_len cfg) (empty_ids tok) (ctx_ids w)))
                  (map ?V taken)"
      unfolding b batch_of_fields mi ..
    also have "\<dots> = map (\<lambda>seg. map (pad_row tok ?W)
                  (slots (history_len cfg) (empty_ids tok) (ctx_ids (?V seg)))) taken"
      unfolding map_map comp_def ..
    also have "\<dots> = map (\<lambda>seg. map (pad_row tok ?W) (?ids seg)) taken"
      by (rule map_cong [OF refl]) (simp only: si)
    finally show ?thesis .
  qed
  have xf: "X_floor b = map ?floors taken"
  proof -
    have "X_floor b = map (\<lambda>seg. slots (history_len cfg) 0 (ctx_floors (?V seg))) taken"
      unfolding b batch_of_fields map_map comp_def ..
    also have "\<dots> = map ?floors taken"
      by (rule map_cong [OF refl]) (simp only: sf)
    finally show ?thesis .
  qed
  have lx: "length (X b) = length taken" unfolding x by simp
  have lf: "length (X_floor b) = length taken" unfolding xf by simp
  have ly: "length (Y b) = length taken" unfolding b batch_of_fields length_tensor by simp
  have each: "1 \<le> length (butlast (taken ! i)) \<and> length (butlast (taken ! i)) \<le> ?hl
                 \<and> X_floor b ! i = ?floors (taken ! i)
                 \<and> X b ! i = map (pad_row tok ?W) (?ids (taken ! i))
                 \<and> length (X b ! i) = ?hl \<and> length (X_floor b ! i) = ?hl
                 \<and> (\<forall>row \<in> set (X b ! i). length row = ?W)"
    if i: "i < length taken" for i
  proof -
    have in_t: "taken ! i \<in> set taken" using i by simp
    note m = mem [OF in_t]
    have l1: "1 \<le> length (butlast (taken ! i))" using m by simp
    have "int (length (butlast (taken ! i))) \<le> history_len cfg" using m by blast
    then have l2: "length (butlast (taken ! i)) \<le> ?hl" by linarith
    have f: "X_floor b ! i = ?floors (taken ! i)" unfolding xf using i by simp
    have xi: "X b ! i = map (pad_row tok ?W) (?ids (taken ! i))" unfolding x using i by simp
    have a: "length (X b ! i) = ?hl" unfolding xi using l2 by simp
    have a': "length (X_floor b ! i) = ?hl" unfolding f using l2 by simp
    have rows: "\<forall>row \<in> set (X b ! i). length row = ?W"
    proof
      fix row assume "row \<in> set (X b ! i)"
      then obtain r where r: "r \<in> set (?ids (taken ! i))" and row: "row = pad_row tok ?W r"
        unfolding xi by auto
      have "r \<in> set (concat (map ?ids taken))" using r in_t by auto
      then have "length r \<in> set (map length (concat (map ?ids taken)))" by simp
      then have "length r \<le> ?W" by (rule fold_max_mem)
      then show "length row = ?W" unfolding row by (rule length_pad_row)
    qed
    show ?thesis using l1 l2 f xi a a' rows by blast
  qed
  have body: "(let taken = filter (\<lambda>seg. \<not> (p \<and> is_next (uttrs (heap ds) ! last seg)))
                        (take n (drop c segs));
            hl = nat (history_len cfg);
            ids = (\<lambda>seg. map (\<lambda>a. token_ids (uttrs (heap ds) ! a)) (butlast seg)
                          @ replicate (hl - length (butlast seg)) (empty_ids tok));
            floors = (\<lambda>seg. map (\<lambda>a. floor_id (uttrs (heap ds) ! a)) (butlast seg)
                          @ replicate (hl - length (butlast seg)) 0);
            seq_len = fold max (map length (concat (map ids taken))) 0
        in length (X b) = length taken \<and> length (X_floor b) = length taken
           \<and> length (Y b) = length taken
           \<and> (\<forall>i<length taken.
                 1 \<le> length (butlast (taken ! i)) \<and> length (butlast (taken ! i)) \<le> hl
                 \<and> X_floor b ! i = floors (taken ! i)
                 \<and> X b ! i = map (pad_row tok seq_len) (ids (taken ! i))
                 \<and> length (X b ! i) = hl \<and> length (X_floor b ! i) = hl
                 \<and> (\<forall>row \<in> set (X b ! i). length row = seq_len)))"
    unfolding Let_def tk [symmetric] using lx lf ly each by blast
  show ?thesis
    apply (rule exI [of _ segs], rule exI [of _ c], rule exI [of _ n])
    apply (intro conjI)
    apply (rule s, rule cu, rule n, rule d', rule body)
    done
qed


theorem context_slots_witness:
  "\<exists>b. fst (ds_next 4 False (epoch_init False ex_rng ex_ds)) = Inr (Some b)
     \<and> length (X b) = 4
     \<and> X_floor b ! 2 = [0, 1, 0, 0, 0]
     \<and> X b ! 2 = [[1, 12, 2, 0], [1, 15, 15, 2], [1, 2, 0, 0], [1, 2, 0, 0], [1, 2, 0, 0]]"
proof -
  let ?ds = "epoch_init False ex_rng ex_ds"
  let ?r = "ds_next 4 False ?ds"
  let ?segs = "[[0, 1], [0, 3], [0, 1, 2], [0, 1, 4::nat]]"
  have "case fst ?r of Inr (Some b) \<Rightarrow> True | _ \<Rightarrow> False" by code_simp
  then obtain b where fb: "fst ?r = Inr (Some b)"
    by (auto split: sum.splits option.splits)
  then have r: "?r = (Inr (Some b), snd ?r)" by (simp add: prod_eq_iff)
  have hl: "1 \<le> history_len ex_config" by (simp add: ex_config_def)
  have h5: "nat (history_len ex_config) = 5" by (simp add: ex_config_def)
  have it: "?ds = iterate_next [] ?ds" by simp
  have sg: "segments ?ds = Some ?segs" by code_simp
  have c0: "cur_segment_idx ?ds = Some 0" by code_simp
  have c4: "cur_segment_idx (snd ?r) = Some 4" by code_simp
  have fl: "map (\<lambda>a. floor_id (uttrs (heap ?ds) ! a)) [0, 1] = [0, 1]" by code_simp
  have ti: "map (\<lambda>a. token_ids (uttrs (heap ?ds) ! a)) [0, 1] = [[1, 12, 2], [1, 15, 15, 2]]"
    by code_simp
  have w: "map (pad_row ex_tokenizer (fold max (map length (concat (map
              (\<lambda>seg. map (\<lambda>a. token_ids (uttrs (heap ?ds) ! a)) (butlast seg)
                          @ replicate (5 - length (butlast seg)) (empty_ids ex_tokenizer)) ?segs))) 0))
             ([[1, 12, 2], [1, 15, 15, 2]] @ replicate 3 (empty_ids ex_tokenizer))
           = [[1, 12, 2, 0], [1, 15, 15, 2], [1, 2, 0, 0], [1, 2, 0, 0], [1, 2, 0, 0]]"
    by code_simp
  from context_slots [OF ex_constructed hl it r] obtain segs c n where
    s: "segments ?ds = Some segs" and cu: "cur_segment_idx ?ds = Some c"
    and d': "snd ?r = ?ds\<lparr>cur_segment_idx := Some (c + n)\<rparr>"
    and body: "(let taken = filter (\<lambda>seg. \<not> (False \<and> is_next (uttrs (heap ?ds) ! last seg)))
                        (take n (drop c segs));
            hl = nat (history_len ex_config);
            ids = (\<lambda>seg. map (\<lambda>a. token_ids (uttrs (heap ?ds) ! a)) (butlast seg)
                          @ replicate (hl - length (butlast seg)) (empty_ids ex_tokenizer));
            floors = (\<lambda>seg. map (\<lambda>a. floor_id (uttrs (heap ?ds) ! a)) (butlast seg)
                          @ replicate (hl - length (butlast seg)) 0);
            seq_len = fold max (map length (concat (map ids taken))) 0
        in length (X b) = length taken \<and> length (X_floor b) = length taken
           \<and> length (Y b) = length taken
           \<and> (\<forall>i<length taken.
                 1 \<le> length (butlast (taken ! i)) \<and> length (butlast (taken ! i)) \<le> hl
                 \<and> X_floor b ! i = floors (taken ! i)
                 \<and> X b ! i = map (pad_row ex_tokenizer seq_len) (ids (taken ! i))
                 \<and> length (X b ! i) = hl \<and> length (X_floor b ! i) = hl
                 \<and> (\<forall>row \<in> set (X b ! i). length row = seq_len)))"
    by blast
  have segs: "segs = ?segs" using s sg by simp
  have c: "c = 0" using cu c0 by simp
  have "cur_segment_idx (snd ?r) = Some (c + n)" by (subst d') simp
  then have n: "n = 4" using c4 c by simp
  have tk: "filter (\<lambda>seg. \<not> (False \<and> is_next (uttrs (heap ?ds) ! last seg))) (take n (drop c segs))
            = ?segs"
    unfolding segs c n by simp
  note bd = body [unfolded Let_def tk h5]
  have lx: "length (X b) = 4" using bd [THEN conjunct1] by simp
  have i2: "(2::nat) < length ?segs" by simp
  note e2 = bd [THEN conjunct2, THEN conjunct2, THEN conjunct2, rule_format, OF i2]
  have b2: "butlast (?segs ! 2) = [0, 1]" by simp
  have xf: "X_floor b ! 2 = [0, 1, 0, 0, 0]"
    using e2 [THEN conjunct2, THEN conjunct2, THEN conjunct1] unfolding b2 fl
    by (simp add: numeral_3_eq_3)
  have xi: "X b ! 2 = [[1, 12, 2, 0], [1, 15, 15, 2], [1, 2, 0, 0], [1, 2, 0, 0], [1, 2, 0, 0]]"
    using e2 [THEN conjunct2, THEN conjunct2, THEN conjunct2, THEN conjunct1] unfolding b2 ti
    using w by simp
  show ?thesis using fb lx xf xi by blast
qed

text \<open>
  The placeholders are not in front. In the example the third segment has the two
  context utterances with floors \<open>0, 1\<close>: \<^verbatim>\<open>next\<close> gives the floor slots \<open>0, 1, 0, 0, 0\<close>
  and the id slots \<open>hi, hello there, empty, empty, empty\<close>, where left padding gives
  \<open>0, 0, 0, 0, 1\<close> and \<open>empty, empty, empty, hi, hello there\<close>.
\<close>

theorem context_slots_not_left_padded:
  "segments (epoch_init False ex_rng ex_ds) = Some [[0, 1], [0, 3], [0, 1, 2], [0, 1, 4]]
   \<and> history_len (epoch_init False ex_rng ex_ds) = 5
   \<and> map floor_id (map ((!) (uttrs (heap (epoch_init False ex_rng ex_ds)))) [0, 1]) = [0, 1]
   \<and> map token_ids (map ((!) (uttrs (heap (epoch_init False ex_rng ex_ds)))) [0, 1])
        = [[1, 12, 2], [1, 15, 15, 2]]
   \<and> empty_ids ex_tokenizer = [1, 2]
   \<and> map_sum id (map_option X_floor) (fst (ds_next 4 False (epoch_init False ex_rng ex_ds)))
        = Inr (Some [[0, 0, 0, 0, 0], [0, 0, 0, 0, 0], [0, 1, 0, 0, 0], [0, 1, 0, 0, 0]])
   \<and> map_sum id (map_option X) (fst (ds_next 4 False (epoch_init False ex_rng ex_ds)))
        = Inr (Some [[[1, 12, 2, 0], [1, 2, 0, 0], [1, 2, 0, 0], [1, 2, 0, 0], [1, 2, 0, 0]],
                     [[1, 12, 2, 0], [1, 2, 0, 0], [1, 2, 0, 0], [1, 2, 0, 0], [1, 2, 0, 0]],
                     [[1, 12, 2, 0], [1, 15, 15, 2], [1, 2, 0, 0], [1, 2, 0, 0], [1, 2, 0, 0]],
                     [[1, 12, 2, 0], [1, 15, 15, 2], [1, 2, 0, 0], [1, 2, 0, 0], [1, 2, 0, 0]]])
   \<and> left_padded_slots 5 0 [0, 1] = [0, 0, 0, 0, 1 :: nat]
   \<and> left_padded_slots 5 [1, 2] [[1, 12, 2], [1, 15, 15, 2]]
        = [[1, 2], [1, 2], [1, 2], [1, 12, 2], [1, 15, 15, 2 :: int]]
   \<and> map_sum id (map_option X_floor) (fst (ds_next 4 False (epoch_init False ex_rng ex_ds)))
        \<noteq> Inr (Some [left_padded_slots 5 0 [0], left_padded_slots 5 0 [0],
                      left_padded_slots 5 0 [0, 1], left_padded_slots 5 0 [0, 1]])"
proof -
  let ?ds = "epoch_init False ex_rng ex_ds"
  have a: "segments ?ds = Some [[0, 1], [0, 3], [0, 1, 2], [0, 1, 4]]" by code_simp
  have b: "history_len ?ds = 5" by code_simp
  have c: "map floor_id (map ((!) (uttrs (heap ?ds))) [0, 1]) = [0, 1]" by code_simp
  have d: "map token_ids (map ((!) (uttrs (heap ?ds))) [0, 1]) = [[1, 12, 2], [1, 15, 15, 2]]"
    by code_simp
  have e: "empty_ids ex_tokenizer = [1, 2]" by code_simp
  have f: "map_sum id (map_option X_floor) (fst (ds_next 4 False ?ds))
        = Inr (Some [[0, 0, 0, 0, 0], [0, 0, 0, 0, 0], [0, 1, 0, 0, 0], [0, 1, 0, 0, 0]])"
    by code_simp
  have g: "map_sum id (map_option X) (fst (ds_next 4 False ?ds))
        = Inr (Some [[[1, 12, 2, 0], [1, 2, 0, 0], [1, 2, 0, 0], [1, 2, 0, 0], [1, 2, 0, 0]],
                     [[1, 12, 2, 0], [1, 2, 0, 0], [1, 2, 0, 0], [1, 2, 0, 0], [1, 2, 0, 0]],
                     [[1, 12, 2, 0], [1, 15, 15, 2], [1, 2, 0, 0], [1, 2, 0, 0], [1, 2, 0, 0]],
                     [[1, 12, 2, 0], [1, 15, 15, 2], [1, 2, 0, 0], [1, 2, 0, 0], [1, 2, 0, 0]]])"
    by code_simp
  have h: "left_padded_slots 5 0 [0, 1] = [0, 0, 0, 0, 1 :: nat]" by code_simp
  have h0: "left_padded_slots 5 0 [0] = [0, 0, 0, 0, 0 :: nat]" by code_simp
  have i: "left_padded_slots 5 [1, 2] [[1, 12, 2], [1, 15, 15, 2]]
        = [[1, 2], [1, 2], [1, 2], [1, 12, 2], [1, 15, 15, 2 :: int]]" by code_simp
  have j: "map_sum id (map_option X_floor) (fst (ds_next 4 False ?ds))
        \<noteq> Inr (Some [left_padded_slots 5 0 [0], left_padded_slots 5 0 [0],
                      left_padded_slots 5 0 [0, 1], left_padded_slots 5 0 [0, 1]])"
    unfolding f h h0 by simp
  show ?thesis using a b c d e f g h i j by blast
qed

section \<open>The construction order\<close>














end
